theory Spec2Isabelle
  imports Complex_Main "HOL-Library.Multiset" "HOL-Library.Signed_Division"
begin

section \<open>Time stamps and durations\<close>

text \<open>
  A \<^verbatim>\<open>time.Time\<close> is represented by its instant in nanoseconds and a
  \<^verbatim>\<open>time.Duration\<close> by its nanosecond count. \<^verbatim>\<open>t.After(u)\<close> holds when the
  instant \<open>t\<close> is strictly later than \<open>u\<close>; \<^verbatim>\<open>t.Add(d)\<close> shifts the instant.
\<close>

type_synonym Time = int
type_synonym Duration = int

definition Second :: Duration where
  "Second = 1000000000"

definition After :: "Time \<Rightarrow> Time \<Rightarrow> bool" where
  "After t u \<longleftrightarrow> u < t"

definition Add :: "Time \<Rightarrow> Duration \<Rightarrow> Time" where
  "Add t d = t + d"

text \<open>
  A duration is a 64-bit integer, and arithmetic on durations wraps around: \<open>wrap64\<close>
  brings an integer back into the range from \<open>- 2 ^ 63\<close> to \<open>2 ^ 63 - 1\<close>. The only
  such operation of the source is the product \<^verbatim>\<open>-1 * cm.window\<close>, which leaves the range
  for the least duration alone and then wraps to that duration itself.
\<close>

definition wrap64 :: "int \<Rightarrow> int" where
  "wrap64 x = (x + 2 ^ 63) mod 2 ^ 64 - 2 ^ 63"

section \<open>Pruning a list of time stamps\<close>

text \<open>
  \<^verbatim>\<open>prune\<close> receives a pointer to a slice. The pointer is an option (\<open>None\<close> is the nil
  pointer); the function returns the slice the pointer refers to afterwards together
  with the integer result; \<open>prune_slice\<close> is the body for a pointer that is not nil.
  The loop runs over the indices of the slice: at the first index whose
  time stamp is after the cutoff the slice is re-sliced to \<^verbatim>\<open>(*ts)[i:]\<close>; when the loop
  runs off the end the slice becomes \<^verbatim>\<open>(*ts)[:0]\<close>.
\<close>

function prune_loop :: "Time list \<Rightarrow> nat \<Rightarrow> Time \<Rightarrow> Time list" where
  "prune_loop ts i cutoff =
     (if i < length ts
      then (if After (ts ! i) cutoff then drop i ts else prune_loop ts (Suc i) cutoff)
      else take 0 ts)"
  by pat_completeness auto
termination
  by (relation "measure (\<lambda>(ts, i, cutoff). length ts - i)") auto

declare prune_loop.simps [simp del]

definition prune_slice :: "Time list \<Rightarrow> Time \<Rightarrow> Time list \<times> int" where
  "prune_slice xs cutoff = (let ys = prune_loop xs 0 cutoff in (ys, int (length ys)))"

definition prune :: "Time list option \<Rightarrow> Time \<Rightarrow> Time list option \<times> int" where
  "prune ts cutoff =
     (case ts of
        None \<Rightarrow> (None, 0)
      | Some xs \<Rightarrow> (let (ys, n) = prune_slice xs cutoff in (Some ys, n)))"

section \<open>Floating-point values\<close>

text \<open>
  A \<^verbatim>\<open>float64\<close> is represented by the exact real number it stands for, with the
  special values of IEEE 754 kept apart: \<open>Fin 0\<close> is the positive zero, \<open>NegZero\<close> the
  negative zero, \<open>PInf\<close> and \<open>NInf\<close> the infinities and \<open>NaN\<close> not-a-number.
  The operations below follow the special-value rules of the Go language and of
  \<^verbatim>\<open>math.Pow\<close>; the rounding of finite results is not represented.
\<close>

datatype float64 = Fin real | NegZero | PInf | NInf | NaN

fun fval :: "float64 \<Rightarrow> real" where
  "fval (Fin x) = x"
| "fval _ = 0"

fun fneg :: "float64 \<Rightarrow> bool" where
  "fneg (Fin x) = (x < 0)"
| "fneg NegZero = True"
| "fneg PInf = False"
| "fneg NInf = True"
| "fneg NaN = False"

definition fzero :: "float64 \<Rightarrow> bool" where
  "fzero x \<longleftrightarrow> x = Fin 0 \<or> x = NegZero"

definition finf :: "float64 \<Rightarrow> bool" where
  "finf x \<longleftrightarrow> x = PInf \<or> x = NInf"

definition float64_of_int :: "int \<Rightarrow> float64" where
  "float64_of_int n = Fin (of_int n)"

definition fdiv :: "float64 \<Rightarrow> float64 \<Rightarrow> float64" where
  "fdiv x y =
     (if x = NaN \<or> y = NaN then NaN
      else if finf x \<and> finf y then NaN
      else if fzero x \<and> fzero y then NaN
      else if finf x \<or> fzero y then (if fneg x \<noteq> fneg y then NInf else PInf)
      else if fzero x \<or> finf y then (if fneg x \<noteq> fneg y then NegZero else Fin 0)
      else Fin (fval x / fval y))"

definition feq :: "float64 \<Rightarrow> float64 \<Rightarrow> bool" where
  "feq x y =
     (if x = NaN \<or> y = NaN then False
      else if finf x \<or> finf y then x = y
      else fval x = fval y)"

definition fgt :: "float64 \<Rightarrow> float64 \<Rightarrow> bool" where
  "fgt x y =
     (if x = NaN \<or> y = NaN then False
      else if x = NInf \<or> y = PInf then False
      else if x = PInf \<or> y = NInf then True
      else fval y < fval x)"

definition odd_integer :: "real \<Rightarrow> bool" where
  "odd_integer y \<longleftrightarrow> y \<in> \<int> \<and> odd \<lfloor>y\<rfloor>"

text \<open>\<^verbatim>\<open>math.Pow(x, y)\<close> at a zero base \<open>x\<close> (the sign of the zero is \<open>fneg x\<close>).\<close>

definition pow_zero :: "bool \<Rightarrow> float64 \<Rightarrow> float64" where
  "pow_zero neg y =
     (case y of
        NInf \<Rightarrow> PInf
      | PInf \<Rightarrow> Fin 0
      | Fin e \<Rightarrow>
          (if e < 0 then (if odd_integer e \<and> neg then NInf else PInf)
           else (if odd_integer e \<and> neg then NegZero else Fin 0))
      | _ \<Rightarrow> NaN)"

definition Pow :: "float64 \<Rightarrow> float64 \<Rightarrow> float64" where
  "Pow x y =
     (if fzero y then Fin 1
      else if x = Fin 1 then Fin 1
      else if y = Fin 1 then x
      else if x = NaN \<or> y = NaN then NaN
      else if fzero x then pow_zero (fneg x) y
      else if finf y then
        (if x = Fin (- 1) then Fin 1
         else if finf x \<or> 1 < \<bar>fval x\<bar> then (if y = PInf then PInf else Fin 0)
         else (if y = PInf then Fin 0 else PInf))
      else if x = PInf then (if fneg y then Fin 0 else PInf)
      else if x = NInf then pow_zero True (Fin (- fval y))
      else if fval x < 0 \<and> fval y \<notin> \<int> then NaN
      else if fval x < 0 then
        (if odd \<lfloor>fval y\<rfloor> then Fin (- (\<bar>fval x\<bar> powr fval y)) else Fin (\<bar>fval x\<bar> powr fval y))
      else Fin (fval x powr fval y))"

section \<open>The RED congestion manager\<close>

type_synonym ErlClient = nat

text \<open>
  The fields of \<^verbatim>\<open>redCongestionManager\<close> that the event loop and the drop decision read.
  The map \<^verbatim>\<open>consumedByClient\<close> holds pointers to slices; a lookup of an absent client
  yields the nil pointer, which is \<open>None\<close> here.
\<close>

record redCongestionManager =
  running :: bool
  window :: Duration
  targetRate :: float64
  targetRateRefreshTicks :: int
  exp_red :: float64
  consumedByClient :: "ErlClient \<rightharpoonup> Time list"
  serves :: "Time list"

definition NewREDCongestionManager :: "Duration \<Rightarrow> int \<Rightarrow> redCongestionManager" where
  "NewREDCongestionManager d r =
     \<lparr> running = False, window = d, targetRate = Fin 0, targetRateRefreshTicks = r,
       exp_red = Fin 4, consumedByClient = Map.empty, serves = [] \<rparr>"

definition arrivalRateFor :: "redCongestionManager \<Rightarrow> Time list option \<Rightarrow> float64" where
  "arrivalRateFor cm arrivals =
     (case arrivals of
        None \<Rightarrow> Fin 0
      | Some xs \<Rightarrow> fdiv (float64_of_int (int (length xs))) (float64_of_int (window cm sdiv Second)))"

text \<open>
  \<^verbatim>\<open>shouldDrop\<close>; the value \<open>r\<close> is the result of the call \<^verbatim>\<open>rand.Float64()\<close>,
  a number in the half-open interval from 0 to 1, which is drawn only when the arrival
  rate is not zero.
\<close>

definition shouldDrop ::
  "redCongestionManager \<Rightarrow> float64 \<Rightarrow> ErlClient \<Rightarrow> Time list option \<Rightarrow> real \<Rightarrow> bool" where
  "shouldDrop cm tr c arrivals r =
     (let clientArrivalRate = arrivalRateFor cm arrivals in
      if feq clientArrivalRate (Fin 0) then False
      else fgt (fdiv (Pow clientArrivalRate (exp_red cm)) (Pow tr (exp_red cm))) (Fin r))"

subsection \<open>The event loop\<close>

text \<open>
  The local variables of \<^verbatim>\<open>run\<close>. They shadow the fields of the manager of the same
  names until the loop exits, when they are written to the fields.
\<close>

record run_vars =
  loc_tick :: int
  loc_targetRate :: float64
  loc_consumedByClient :: "ErlClient \<rightharpoonup> Time list"
  loc_serves :: "Time list"
  loc_exit :: bool

definition run_init :: run_vars where
  "run_init = \<lparr> loc_tick = 0, loc_targetRate = Fin 0, loc_consumedByClient = Map.empty,
                  loc_serves = [], loc_exit = False \<rparr>"

text \<open>The case of the \<^verbatim>\<open>select\<close> statement that fires in an iteration.\<close>

datatype select_case =
    RecvConsumed ErlClient Time
  | RecvServed Time
  | RecvQuery ErlClient
  | CtxDone

text \<open>
  The body of the selected case. \<open>now\<close> is the reading of the clock and \<open>r\<close> the random
  draw of the query case; the second component is the answer sent on the reply channel of
  a query.
\<close>

definition select_body ::
  "redCongestionManager \<Rightarrow> select_case \<Rightarrow> Time \<Rightarrow> real \<Rightarrow> run_vars \<Rightarrow> run_vars \<times> bool option" where
  "select_body cm ev now r st =
     (case ev of
        RecvConsumed c t \<Rightarrow>
          (let ts = (case loc_consumedByClient st c of None \<Rightarrow> [] | Some xs \<Rightarrow> xs)
           in (st\<lparr>loc_consumedByClient := (loc_consumedByClient st)(c \<mapsto> ts @ [t])\<rparr>, None))
      | RecvServed t \<Rightarrow> (st\<lparr>loc_serves := loc_serves st @ [t]\<rparr>, None)
      | RecvQuery c \<Rightarrow>
          (let cutoff = Add now (wrap64 (- 1 * window cm));
               (p, n) = prune (loc_consumedByClient st c) cutoff;
               m = (case p of None \<Rightarrow> loc_consumedByClient st
                            | Some ys \<Rightarrow> (loc_consumedByClient st)(c \<mapsto> ys))
           in (st\<lparr>loc_consumedByClient := m\<rparr>, Some (shouldDrop cm (loc_targetRate st) c (m c) r)))
      | CtxDone \<Rightarrow> (st\<lparr>loc_exit := True\<rparr>, None))"

text \<open>
  The recalculation of the target rate. The \<^verbatim>\<open>range\<close> loop over the map prunes the
  slice of every key and deletes the key when the pruned slice is empty; the keys are
  handled independently of each other, so the resulting map is given key by key.
\<close>

definition prune_clients :: "(ErlClient \<rightharpoonup> Time list) \<Rightarrow> Time \<Rightarrow> (ErlClient \<rightharpoonup> Time list)" where
  "prune_clients m cutoff =
     (\<lambda>c. case m c of
             None \<Rightarrow> None
           | Some xs \<Rightarrow> (let (ys, n) = prune_slice xs cutoff in if n = 0 then None else Some ys))"

definition recalculate :: "redCongestionManager \<Rightarrow> Time \<Rightarrow> run_vars \<Rightarrow> run_vars" where
  "recalculate cm now st =
     (let cutoff = Add now (wrap64 (- 1 * window cm));
          (srv, n) = prune_slice (loc_serves st) cutoff;
          m = prune_clients (loc_consumedByClient st) cutoff;
          tr = (if 0 < card (dom m)
                then (let serviceRate = fdiv (float64_of_int (int (length srv)))
                                             (float64_of_int (window cm sdiv Second))
                      in fdiv serviceRate (float64_of_int (int (card (dom m)))))
                else Fin 0)
      in st\<lparr>loc_serves := srv, loc_consumedByClient := m, loc_targetRate := tr\<rparr>)"

datatype run_panic = DivideByZero

text \<open>
  One iteration of the loop of \<^verbatim>\<open>run\<close>, up to the test of \<^verbatim>\<open>exit\<close>: the selected
  case, the tick counter (the remainder operator of Go truncates and panics on a zero
  divisor), and the recalculation when the counter is zero or the loop is exiting.
  \<open>now1\<close> and \<open>now2\<close> are the two readings of the clock.
\<close>

definition run_iteration ::
  "redCongestionManager \<Rightarrow> select_case \<Rightarrow> Time \<Rightarrow> real \<Rightarrow> Time \<Rightarrow> run_vars
     \<Rightarrow> run_panic + run_vars \<times> bool option" where
  "run_iteration cm ev now1 r now2 st =
     (let (st1, reply) = select_body cm ev now1 r st in
      if targetRateRefreshTicks cm = 0 then Inl DivideByZero
      else
        (let st2 = st1\<lparr>loc_tick := (loc_tick st1 + 1) smod targetRateRefreshTicks cm\<rparr>;
             st3 = (if loc_tick st2 = 0 \<or> loc_exit st2 then recalculate cm now2 st2 else st2)
         in Inr (st3, reply)))"

text \<open>
  The loop itself, driven by the list of the cases that fire with their clock readings and
  random draws. The result is \<open>None\<close> when the list ends before the context is cancelled
  (the loop then waits in \<^verbatim>\<open>select\<close>); otherwise it is the panic, or the manager with
  the local variables written to its fields and \<^verbatim>\<open>running\<close> cleared, together with the
  answers to the queries.
\<close>

fun run ::
  "redCongestionManager \<Rightarrow> (select_case \<times> Time \<times> real \<times> Time) list \<Rightarrow> run_vars \<Rightarrow> bool list
     \<Rightarrow> (run_panic + redCongestionManager \<times> bool list) option" where
  "run cm [] st out = None"
| "run cm ((ev, now1, r, now2) # evs) st out =
     (case run_iteration cm ev now1 r now2 st of
        Inl p \<Rightarrow> Some (Inl p)
      | Inr (st', reply) \<Rightarrow>
          (let out' = (case reply of None \<Rightarrow> out | Some b \<Rightarrow> out @ [b]) in
           if loc_exit st'
           then Some (Inr (cm\<lparr>targetRate := loc_targetRate st',
                                consumedByClient := loc_consumedByClient st',
                                serves := loc_serves st', running := False\<rparr>, out'))
           else run cm evs st' out'))"

section \<open>The elastic rate limiter\<close>

subsection \<open>Capacity queues\<close>

text \<open>
  A \<^verbatim>\<open>capacityQueue\<close> is a channel of empty structs, so its state is its capacity and
  the number of elements it buffers. Channels are references: guards, the map of
  reservations and the transfer goroutines share them. The store \<open>chans\<close> of the state
  holds the channels, and a reference is an index into it. An operation on a reference
  outside the store never proceeds, as on the nil channel.

  A receive proceeds when the channel holds an element, a send when it has room; the
  result \<open>None\<close> means that the operation cannot proceed: the blocking forms wait, the
  forms inside a \<^verbatim>\<open>select\<close> with a \<^verbatim>\<open>default\<close> take the default case.
  (A channel of capacity zero has no buffer, and a send on it would need a waiting
  receiver; the limiter attempts no send on such a channel, see
  \<open>sends_on_buffered_channels\<close> below.)
\<close>

type_synonym qid = nat

record capacityQueue =
  qcap :: nat
  qlen :: nat

definition recv :: "qid \<Rightarrow> capacityQueue list \<Rightarrow> capacityQueue list option" where
  "recv q h =
     (if q < length h \<and> 0 < qlen (h ! q)
      then Some (h[q := (h ! q)\<lparr>qlen := qlen (h ! q) - 1\<rparr>]) else None)"

definition send :: "qid \<Rightarrow> capacityQueue list \<Rightarrow> capacityQueue list option" where
  "send q h =
     (if q < length h \<and> qlen (h ! q) < qcap (h ! q)
      then Some (h[q := (h ! q)\<lparr>qlen := qlen (h ! q) + 1\<rparr>]) else None)"

definition blockingRelease :: "qid \<Rightarrow> capacityQueue list \<Rightarrow> capacityQueue list option" where
  "blockingRelease q h = send q h"

definition blockingConsume :: "qid \<Rightarrow> capacityQueue list \<Rightarrow> capacityQueue list option" where
  "blockingConsume q h = recv q h"

subsection \<open>The limiter and the state around it\<close>

datatype erl_error =
    CouldNotReplace qid
  | CouldNotConsume qid
  | AlreadyReserved
  | NotEnoughCapacity int int
  | CongestionPrevented
  | MakechanPanic

text \<open>
  The errors are the five \<^verbatim>\<open>fmt.Errorf\<close> values of the source; \<open>MakechanPanic\<close> is
  not a returned error but the run-time panic of \<^verbatim>\<open>make\<close> on a negative size.

  The limiter sees its congestion manager through the interface only: \<open>cm\<close> is \<open>None\<close>
  for the nil interface and otherwise lists the calls of \<^verbatim>\<open>Consumed\<close> the manager has
  received; the answer of \<^verbatim>\<open>ShouldDrop\<close> is an input of the functions that ask for
  it. A counter is \<open>None\<close> for the nil pointer and otherwise counts the calls of
  \<^verbatim>\<open>Inc\<close>.
\<close>

record ElasticRateLimiter =
  MaxCapacity :: int
  CapacityPerReservation :: int
  sharedCapacity :: qid
  capacityByClient :: "ErlClient \<rightharpoonup> qid"
  noCapacityCounter :: "nat option"
  cm :: "(ErlClient \<times> Time) list option"
  enableCM :: bool
  congestionControlCounter :: "nat option"

record ErlCapacityGuard =
  cq :: qid

text \<open>
  A transfer goroutine runs the loop
  \<^verbatim>\<open>for i := 0; i < erl.CapacityPerReservation; i++ { src.blockingConsume(); dst.blockingRelease() }\<close>;
  \<open>iter\<close> is the loop variable and \<open>holding\<close> tells that the goroutine stands between
  the receive and the send.
\<close>

record transfer =
  src :: qid
  dst :: qid
  iter :: int
  holding :: bool

text \<open>
  The places at which a call of \<^verbatim>\<open>ConsumeCapacity\<close> stands between two atomic
  actions, with the local variables that are live there: before \<^verbatim>\<open>openReservation\<close>,
  at the blocking receive on the new reservation, at step 1 (the reserved queue, with the
  value read from \<^verbatim>\<open>enableCM\<close>), at step 2 (the congestion manager) and at step 3 (the
  shared queue).
\<close>

datatype call =
    AtOpen ErlClient
  | AtBlockingConsume ErlClient qid
  | AtReserved ErlClient qid bool
  | AtGate ErlClient bool
  | AtShared ErlClient

datatype call_result =
    Returned "erl_error + ErlCapacityGuard"
  | Pending call

text \<open>
  The state: the limiter, the channel store, the transfer goroutines that have been
  started, the guards that callers hold and have not released, and the calls of
  \<^verbatim>\<open>ConsumeCapacity\<close> that are under way.
\<close>

record erl_state = ElasticRateLimiter +
  chans :: "capacityQueue list"
  tasks :: "transfer multiset"
  guards :: "ErlCapacityGuard multiset"
  calls :: "call multiset"

subsection \<open>Construction\<close>

fun fill :: "nat \<Rightarrow> qid \<Rightarrow> capacityQueue list \<Rightarrow> capacityQueue list option" where
  "fill 0 q h = Some h"
| "fill (Suc n) q h = (case blockingRelease q h of None \<Rightarrow> None | Some h' \<Rightarrow> fill n q h')"

text \<open>
  \<^verbatim>\<open>NewElasticRateLimiter\<close>: \<^verbatim>\<open>make\<close> panics on a negative capacity (the result is
  \<open>None\<close>); the loop then fills the shared queue.
\<close>

definition NewElasticRateLimiter ::
  "int \<Rightarrow> int \<Rightarrow> (ErlClient \<times> Time) list option \<Rightarrow> nat option \<Rightarrow> nat option \<Rightarrow> erl_state option" where
  "NewElasticRateLimiter maxCapacity reservedCapacity cm0 nocapCount conmanCount =
     (if maxCapacity < 0 then None
      else (case fill (nat maxCapacity) 0 [\<lparr>qcap = nat maxCapacity, qlen = 0\<rparr>] of
              None \<Rightarrow> None
            | Some h \<Rightarrow>
                Some \<lparr> MaxCapacity = maxCapacity, CapacityPerReservation = reservedCapacity,
                       sharedCapacity = 0, capacityByClient = Map.empty,
                       noCapacityCounter = nocapCount, cm = cm0, enableCM = False,
                       congestionControlCounter = conmanCount,
                       chans = h, tasks = {#}, guards = {#}, calls = {#} \<rparr>))"

definition EnableCongestionControl :: "erl_state \<Rightarrow> erl_state" where
  "EnableCongestionControl s = s\<lparr>enableCM := True\<rparr>"

definition DisableCongestionControl :: "erl_state \<Rightarrow> erl_state" where
  "DisableCongestionControl s = s\<lparr>enableCM := False\<rparr>"

subsection \<open>Guards and the non-blocking take\<close>

text \<open>\<^verbatim>\<open>ErlCapacityGuard.Release\<close>: a send with a default case.\<close>

definition Release :: "ErlCapacityGuard \<Rightarrow> erl_state \<Rightarrow> erl_error option \<times> erl_state" where
  "Release cg s =
     (case send (cq cg) (chans s) of
        Some h \<Rightarrow> (None, s\<lparr>chans := h\<rparr>)
      | None \<Rightarrow> (Some (CouldNotReplace (cq cg)), s))"

text \<open>\<^verbatim>\<open>capacityQueue.consume\<close>: a receive with a default case.\<close>

definition consume :: "qid \<Rightarrow> erl_state \<Rightarrow> erl_error + ErlCapacityGuard \<times> erl_state" where
  "consume q s =
     (case recv q (chans s) of
        Some h \<Rightarrow> Inr (\<lparr>cq = q\<rparr>, s\<lparr>chans := h\<rparr>)
      | None \<Rightarrow> Inl (CouldNotConsume q))"

subsection \<open>Opening and closing a reservation\<close>

text \<open>
  \<^verbatim>\<open>openReservation\<close>: the part under the lock is one atomic action; the goroutine it
  starts afterwards is added to \<open>tasks\<close> at its first iteration. The new channel takes
  the next index of the store. The integers are those of the source without wrap-around:
  in the reachable states the product lies between 0 and \<^verbatim>\<open>MaxCapacity\<close>, see
  \<open>reservation_product_in_range\<close> below.
\<close>

definition openReservation :: "erl_state \<Rightarrow> ErlClient \<Rightarrow> erl_error + qid \<times> erl_state" where
  "openReservation s c =
     (if capacityByClient s c \<noteq> None then Inl AlreadyReserved
      else
        (let remaining = MaxCapacity s
               - CapacityPerReservation s * int (card (dom (capacityByClient s)))
         in if CapacityPerReservation s > remaining
            then Inl (NotEnoughCapacity remaining (CapacityPerReservation s))
            else if CapacityPerReservation s < 0 then Inl MakechanPanic
            else
              (let q = length (chans s) in
               Inr (q, s\<lparr> chans := chans s @ [\<lparr>qcap = nat (CapacityPerReservation s), qlen = 0\<rparr>],
                          capacityByClient := (capacityByClient s)(c \<mapsto> q),
                          tasks := tasks s
                            + {#\<lparr>src = sharedCapacity s, dst = q, iter = 0, holding = False\<rparr>#} \<rparr>))))"

definition closeReservation :: "erl_state \<Rightarrow> ErlClient \<Rightarrow> erl_state" where
  "closeReservation s c =
     (case capacityByClient s c of
        None \<Rightarrow> s
      | Some q \<Rightarrow>
          (if q = sharedCapacity s then s
           else s\<lparr> capacityByClient := (capacityByClient s)(c := None),
                   tasks := tasks s
                     + {#\<lparr>src = q, dst = sharedCapacity s, iter = 0, holding = False\<rparr>#} \<rparr>))"

text \<open>One atomic action of a transfer goroutine; \<open>None\<close> when it waits or has returned.\<close>

definition transfer_step :: "transfer \<Rightarrow> erl_state \<Rightarrow> erl_state option" where
  "transfer_step t s =
     (if \<not> iter t < CapacityPerReservation s then None
      else if \<not> holding t then
        (case blockingConsume (src t) (chans s) of
           None \<Rightarrow> None
         | Some h \<Rightarrow> Some (s\<lparr>chans := h, tasks := tasks s - {#t#} + {#t\<lparr>holding := True\<rparr>#}\<rparr>))
      else
        (case blockingRelease (dst t) (chans s) of
           None \<Rightarrow> None
         | Some h \<Rightarrow>
             Some (s\<lparr>chans := h,
                     tasks := tasks s - {#t#} + {#t\<lparr>iter := iter t + 1, holding := False\<rparr>#}\<rparr>)))"

subsection \<open>Admission\<close>

definition notify_consumed :: "ErlClient \<Rightarrow> Time \<Rightarrow> erl_state \<Rightarrow> erl_state" where
  "notify_consumed c now s =
     (case cm s of None \<Rightarrow> s | Some evs \<Rightarrow> s\<lparr>cm := Some (evs @ [(c, now)])\<rparr>)"

definition Inc :: "nat option \<Rightarrow> nat option" where
  "Inc counter = (case counter of None \<Rightarrow> None | Some n \<Rightarrow> Some (Suc n))"

text \<open>
  \<^verbatim>\<open>ConsumeCapacity\<close>, run without interference from other goroutines. \<open>now\<close> is the
  reading of the clock and \<open>sd\<close> the answer of \<^verbatim>\<open>ShouldDrop\<close>, should the call ask
  for them. On the path of a new reservation the call can only wait at the blocking
  receive, since the goroutine that fills the reservation has not moved a token yet: the
  result is then \<open>Pending\<close> at that place. (The registration of the \<^verbatim>\<open>OnClose\<close>
  callback and the \<^verbatim>\<open>Println\<close> of that path do not touch the state.)
\<close>

definition ConsumeCapacity ::
  "erl_state \<Rightarrow> ErlClient \<Rightarrow> Time \<Rightarrow> bool \<Rightarrow> call_result \<times> erl_state" where
  "ConsumeCapacity s c now sd =
     (let enableCM0 = enableCM s in
      case capacityByClient s c of
        None \<Rightarrow>
          (case openReservation s c of
             Inl err \<Rightarrow> (Returned (Inl err), s)
           | Inr (q, s1) \<Rightarrow>
               (case blockingConsume q (chans s1) of
                  None \<Rightarrow> (Pending (AtBlockingConsume c q), s1)
                | Some h \<Rightarrow> (Returned (Inr \<lparr>cq = q\<rparr>), s1\<lparr>chans := h\<rparr>)))
      | Some q \<Rightarrow>
          (case consume q s of
             Inr (cg, s1) \<Rightarrow> (Returned (Inr cg), notify_consumed c now s1)
           | Inl err \<Rightarrow>
               (if cm s \<noteq> None \<and> enableCM0 \<and> sd
                then (Returned (Inl CongestionPrevented),
                      s\<lparr>congestionControlCounter := Inc (congestionControlCounter s)\<rparr>)
                else
                  (case consume (sharedCapacity s) s of
                     Inl err \<Rightarrow> (Returned (Inl err), s\<lparr>noCapacityCounter := Inc (noCapacityCounter s)\<rparr>)
                   | Inr (cg, s1) \<Rightarrow> (Returned (Inr cg), notify_consumed c now s1)))))"

subsection \<open>Interleaved executions\<close>

text \<open>
  The same function, one atomic action at a time, so that other goroutines can run in
  between: \<open>call_begin\<close> is the read of the map and of the flag under the read lock,
  \<open>call_step\<close> the next action of a call (\<open>None\<close> when the call waits).
\<close>

definition call_begin :: "erl_state \<Rightarrow> ErlClient \<Rightarrow> call" where
  "call_begin s c =
     (case capacityByClient s c of None \<Rightarrow> AtOpen c | Some q \<Rightarrow> AtReserved c q (enableCM s))"

fun call_step :: "call \<Rightarrow> Time \<Rightarrow> bool \<Rightarrow> erl_state \<Rightarrow> (call_result \<times> erl_state) option" where
  "call_step (AtOpen c) now sd s =
     (case openReservation s c of
        Inl err \<Rightarrow> Some (Returned (Inl err), s)
      | Inr (q, s1) \<Rightarrow> Some (Pending (AtBlockingConsume c q), s1))"
| "call_step (AtBlockingConsume c q) now sd s =
     (case blockingConsume q (chans s) of
        None \<Rightarrow> None
      | Some h \<Rightarrow> Some (Returned (Inr \<lparr>cq = q\<rparr>), s\<lparr>chans := h\<rparr>))"
| "call_step (AtReserved c q enableCM0) now sd s =
     (case consume q s of
        Inr (cg, s1) \<Rightarrow> Some (Returned (Inr cg), notify_consumed c now s1)
      | Inl err \<Rightarrow> Some (Pending (AtGate c enableCM0), s))"
| "call_step (AtGate c enableCM0) now sd s =
     (if cm s \<noteq> None \<and> enableCM0 \<and> sd
      then Some (Returned (Inl CongestionPrevented),
                 s\<lparr>congestionControlCounter := Inc (congestionControlCounter s)\<rparr>)
      else Some (Pending (AtShared c), s))"
| "call_step (AtShared c) now sd s =
     (case consume (sharedCapacity s) s of
        Inl err \<Rightarrow> Some (Returned (Inl err), s\<lparr>noCapacityCounter := Inc (noCapacityCounter s)\<rparr>)
      | Inr (cg, s1) \<Rightarrow> Some (Returned (Inr cg), notify_consumed c now s1))"

text \<open>A call that is left alone: it takes steps until it returns or waits.\<close>

fun call_run :: "nat \<Rightarrow> Time \<Rightarrow> bool \<Rightarrow> call_result \<times> erl_state \<Rightarrow> call_result \<times> erl_state" where
  "call_run 0 now sd x = x"
| "call_run (Suc n) now sd (Returned r, s) = (Returned r, s)"
| "call_run (Suc n) now sd (Pending k, s) =
     (case call_step k now sd s of None \<Rightarrow> (Pending k, s) | Some x \<Rightarrow> call_run n now sd x)"

text \<open>
  The actions of an execution: a goroutine enters \<^verbatim>\<open>ConsumeCapacity\<close>; a call under way
  takes a step; a caller releases a guard it holds; \<^verbatim>\<open>openReservation\<close> or
  \<^verbatim>\<open>closeReservation\<close> is called (the latter is what the \<^verbatim>\<open>OnClose\<close> callback does);
  a transfer goroutine takes a step; the flag is switched. A guard that a call returns
  joins the guards held. There is no next state (\<open>None\<close>) when the action is not enabled
  or the program panics.
\<close>

datatype event =
    Call ErlClient
  | CallStep call Time bool
  | ReleaseGuard ErlCapacityGuard
  | Open ErlClient
  | Close ErlClient
  | TransferStep transfer
  | Enable
  | Disable

definition finish_call :: "call \<Rightarrow> call_result \<times> erl_state \<Rightarrow> erl_state option" where
  "finish_call k x =
     (case x of
        (Returned (Inl err), s) \<Rightarrow>
          (if err = MakechanPanic then None else Some (s\<lparr>calls := calls s - {#k#}\<rparr>))
      | (Returned (Inr cg), s) \<Rightarrow> Some (s\<lparr>calls := calls s - {#k#}, guards := guards s + {#cg#}\<rparr>)
      | (Pending k', s) \<Rightarrow> Some (s\<lparr>calls := calls s - {#k#} + {#k'#}\<rparr>))"

fun step :: "event \<Rightarrow> erl_state \<Rightarrow> erl_state option" where
  "step (Call c) s = Some (s\<lparr>calls := calls s + {#call_begin s c#}\<rparr>)"
| "step (CallStep k now sd) s =
     (if k \<in># calls s
      then (case call_step k now sd s of None \<Rightarrow> None | Some x \<Rightarrow> finish_call k x)
      else None)"
| "step (ReleaseGuard cg) s =
     (if cg \<in># guards s
      then Some ((snd (Release cg s))\<lparr>guards := guards s - {#cg#}\<rparr>)
      else None)"
| "step (Open c) s =
     (case openReservation s c of
        Inl err \<Rightarrow> (if err = MakechanPanic then None else Some s)
      | Inr (q, s1) \<Rightarrow> Some s1)"
| "step (Close c) s = Some (closeReservation s c)"
| "step (TransferStep t) s = (if t \<in># tasks s then transfer_step t s else None)"
| "step Enable s = Some (EnableCongestionControl s)"
| "step Disable s = Some (DisableCongestionControl s)"

fun exec :: "event list \<Rightarrow> erl_state \<Rightarrow> erl_state option" where
  "exec [] s = Some s"
| "exec (e # es) s = (case step e s of None \<Rightarrow> None | Some s' \<Rightarrow> exec es s')"

text \<open>
  The background goroutines have quiesced when none of them can take a step: each has
  finished its loop or waits on a channel.
\<close>

definition quiesced :: "erl_state \<Rightarrow> bool" where
  "quiesced s \<longleftrightarrow> (\<forall>t \<in># tasks s. transfer_step t s = None)"

definition completed :: "erl_state \<Rightarrow> bool" where
  "completed s \<longleftrightarrow> (\<forall>t \<in># tasks s. \<not> iter t < CapacityPerReservation s \<and> \<not> holding t)"

definition shared_tokens :: "erl_state \<Rightarrow> nat" where
  "shared_tokens s = qlen (chans s ! sharedCapacity s)"

definition reservation_tokens :: "erl_state \<Rightarrow> nat" where
  "reservation_tokens s = (\<Sum>c \<in> dom (capacityByClient s). qlen (chans s ! the (capacityByClient s c)))"

subsection \<open>The accounting invariant\<close>

text \<open>
  What a transfer goroutine has done to a queue \<open>q\<close>: \<open>carried\<close> is the token it holds
  between its receive and its send, \<open>delivered\<close> the tokens it has sent to \<open>q\<close>,
  \<open>removed\<close> the tokens it has received from \<open>q\<close>, and \<open>feeds\<close> tells that it
  sends to \<open>q\<close>.
\<close>

definition carried :: "transfer \<Rightarrow> int" where
  "carried t = (if holding t then 1 else 0)"

definition feeds :: "qid \<Rightarrow> transfer \<Rightarrow> int" where
  "feeds q t = (if dst t = q then 1 else 0)"

definition delivered :: "qid \<Rightarrow> transfer \<Rightarrow> int" where
  "delivered q t = (if dst t = q then iter t else 0)"

definition removed :: "qid \<Rightarrow> transfer \<Rightarrow> int" where
  "removed q t = (if src t = q then iter t + carried t else 0)"

text \<open>
  The parts of the invariant of the reachable states, over the capacities \<open>M\<close> and \<open>R\<close>,
  the map \<open>m\<close> of reservations, the channel store \<open>h\<close>, the transfer goroutines \<open>T\<close>
  and the guards held \<open>G\<close>: the shape of the store; the count of all tokens; the bounds
  of the goroutines; one filling goroutine for every reservation queue; the balance of
  every reservation queue; the guards refer to the store; the map is injective into the
  reservation queues and within the overprovisioning bound; every reservation queue that
  has left the map has a draining goroutine.
\<close>

definition I_static :: "int \<Rightarrow> int \<Rightarrow> capacityQueue list \<Rightarrow> bool" where
  "I_static M R h \<longleftrightarrow>
     0 \<le> M \<and> h \<noteq> [] \<and> qcap (h ! 0) = nat M
     \<and> (\<forall>q. 0 < q \<and> q < length h \<longrightarrow> qcap (h ! q) = nat R \<and> 0 \<le> R)"

definition I_total :: "int \<Rightarrow> capacityQueue list \<Rightarrow> transfer multiset \<Rightarrow> ErlCapacityGuard multiset \<Rightarrow> bool" where
  "I_total M h T G \<longleftrightarrow>
     int (sum_list (map qlen h)) + (\<Sum>t\<in>#T. carried t) + int (size G) = M"

definition I_tasks :: "int \<Rightarrow> capacityQueue list \<Rightarrow> transfer multiset \<Rightarrow> bool" where
  "I_tasks R h T \<longleftrightarrow>
     (\<forall>t\<in>#T. src t < length h \<and> dst t < length h \<and> 0 \<le> iter t \<and> iter t + carried t \<le> R)"

definition I_fed :: "capacityQueue list \<Rightarrow> transfer multiset \<Rightarrow> bool" where
  "I_fed h T \<longleftrightarrow> (\<forall>q. 0 < q \<and> q < length h \<longrightarrow> (\<Sum>t\<in>#T. feeds q t) = 1)"

definition I_bal :: "capacityQueue list \<Rightarrow> transfer multiset \<Rightarrow> ErlCapacityGuard multiset \<Rightarrow> bool" where
  "I_bal h T G \<longleftrightarrow>
     (\<forall>q. 0 < q \<and> q < length h \<longrightarrow>
        int (qlen (h ! q)) + int (count G \<lparr>cq = q\<rparr>)
          = (\<Sum>t\<in>#T. delivered q t) - (\<Sum>t\<in>#T. removed q t))"

definition I_guards :: "capacityQueue list \<Rightarrow> ErlCapacityGuard multiset \<Rightarrow> bool" where
  "I_guards h G \<longleftrightarrow> (\<forall>g\<in>#G. cq g < length h)"

definition I_map :: "int \<Rightarrow> int \<Rightarrow> (ErlClient \<rightharpoonup> qid) \<Rightarrow> capacityQueue list \<Rightarrow> bool" where
  "I_map M R m h \<longleftrightarrow>
     (\<forall>c q. m c = Some q \<longrightarrow> 0 < q \<and> q < length h)
     \<and> inj_on m (dom m) \<and> finite (dom m) \<and> R * int (card (dom m)) \<le> M"

definition I_closing :: "(ErlClient \<rightharpoonup> qid) \<Rightarrow> capacityQueue list \<Rightarrow> transfer multiset \<Rightarrow> bool" where
  "I_closing m h T \<longleftrightarrow>
     (\<forall>q. 0 < q \<and> q < length h \<and> q \<notin> ran m \<longrightarrow> (\<exists>t\<in>#T. src t = q))"

definition Inv ::
  "int \<Rightarrow> int \<Rightarrow> (ErlClient \<rightharpoonup> qid) \<Rightarrow> capacityQueue list \<Rightarrow> transfer multiset
     \<Rightarrow> ErlCapacityGuard multiset \<Rightarrow> bool" where
  "Inv M R m h T G \<longleftrightarrow>
     I_static M R h \<and> I_total M h T G \<and> I_tasks R h T \<and> I_fed h T \<and> I_bal h T G
     \<and> I_guards h G \<and> I_map M R m h \<and> I_closing m h T"

definition invariant :: "erl_state \<Rightarrow> bool" where
  "invariant s \<longleftrightarrow>
     sharedCapacity s = 0
     \<and> Inv (MaxCapacity s) (CapacityPerReservation s) (capacityByClient s) (chans s) (tasks s) (guards s)"

subsection \<open>Example states and an example execution\<close>

definition opener :: "qid \<Rightarrow> int \<Rightarrow> bool \<Rightarrow> transfer" where
  "opener q i b = \<lparr>src = 0, dst = q, iter = i, holding = b\<rparr>"

definition closer :: "qid \<Rightarrow> int \<Rightarrow> bool \<Rightarrow> transfer" where
  "closer q i b = \<lparr>src = q, dst = 0, iter = i, holding = b\<rparr>"

definition example_run :: "event list" where
  "example_run =
     [Call 1, CallStep (AtOpen 1) 0 False,
      TransferStep (opener 1 0 False), TransferStep (opener 1 0 True),
      CallStep (AtBlockingConsume 1 1) 0 False,
      TransferStep (opener 1 1 False), TransferStep (opener 1 1 True),
      Call 1, CallStep (AtReserved 1 1 False) 5 False,
      Call 1, CallStep (AtReserved 1 1 False) 6 False, CallStep (AtGate 1 False) 6 False,
      CallStep (AtShared 1) 6 False,
      ReleaseGuard \<lparr>cq = 1\<rparr>]"

definition example_final :: erl_state where
  "example_final =
     \<lparr> MaxCapacity = 4, CapacityPerReservation = 2, sharedCapacity = 0,
       capacityByClient = [1 \<mapsto> 1], noCapacityCounter = Some 0, cm = Some [(1, 5), (1, 6)],
       enableCM = False, congestionControlCounter = None,
       chans = [\<lparr>qcap = 4, qlen = 1\<rparr>, \<lparr>qcap = 2, qlen = 1\<rparr>],
       tasks = {#opener 1 2 False#}, guards = {#\<lparr>cq = 1\<rparr>, \<lparr>cq = 0\<rparr>#}, calls = {#} \<rparr>"

definition limiter0 :: erl_state where
  "limiter0 =
     \<lparr> MaxCapacity = 4, CapacityPerReservation = 2, sharedCapacity = 0,
       capacityByClient = Map.empty, noCapacityCounter = Some 0, cm = Some [],
       enableCM = False, congestionControlCounter = None,
       chans = [\<lparr>qcap = 4, qlen = 4\<rparr>], tasks = {#}, guards = {#}, calls = {#} \<rparr>"

definition limiter1 :: erl_state where
  "limiter1 = limiter0
     \<lparr> capacityByClient := [1 \<mapsto> 1],
       chans := [\<lparr>qcap = 4, qlen = 4\<rparr>, \<lparr>qcap = 2, qlen = 0\<rparr>],
       tasks := {#opener 1 0 False#} \<rparr>"

definition limiter2 :: erl_state where
  "limiter2 = limiter1
     \<lparr> chans := [\<lparr>qcap = 4, qlen = 3\<rparr>, \<lparr>qcap = 2, qlen = 1\<rparr>],
       tasks := {#opener 1 1 False#} \<rparr>"

definition limiter3 :: erl_state where
  "limiter3 = limiter0
     \<lparr> chans := [\<lparr>qcap = 4, qlen = 4\<rparr>, \<lparr>qcap = 2, qlen = 0\<rparr>],
       tasks := {#opener 1 2 False, closer 1 2 False#} \<rparr>"

definition exhausted :: erl_state where
  "exhausted = limiter0
     \<lparr> capacityByClient := [1 \<mapsto> 1],
       chans := [\<lparr>qcap = 4, qlen = 0\<rparr>, \<lparr>qcap = 2, qlen = 0\<rparr>],
       tasks := {#opener 1 2 False#},
       guards := {#\<lparr>cq = 1\<rparr>, \<lparr>cq = 1\<rparr>, \<lparr>cq = 0\<rparr>, \<lparr>cq = 0\<rparr>#} \<rparr>"

subsection \<open>The states of a reservation that is opened and closed\<close>

text \<open>
  The states that the transfer goroutines reach when one reservation is opened on a fresh
  limiter and then closed: \<open>filling\<close> while only the goroutine of \<^verbatim>\<open>openReservation\<close>
  runs, at iteration \<open>i\<close>; \<open>draining\<close> when the goroutine of \<^verbatim>\<open>closeReservation\<close>
  runs too, at iteration \<open>j\<close>. \<open>held\<close> counts the token a goroutine holds.
\<close>

definition held :: "bool \<Rightarrow> int" where
  "held b = (if b then 1 else 0)"

definition filling :: "int \<Rightarrow> int \<Rightarrow> int \<Rightarrow> bool \<Rightarrow> erl_state \<Rightarrow> bool" where
  "filling M R i b s \<longleftrightarrow>
     CapacityPerReservation s = R \<and> 0 \<le> i \<and> i + held b \<le> R \<and> R \<le> M
     \<and> chans s = [\<lparr>qcap = nat M, qlen = nat (M - i - held b)\<rparr>, \<lparr>qcap = nat R, qlen = nat i\<rparr>]
     \<and> tasks s = {#opener 1 i b#}"

definition draining :: "int \<Rightarrow> int \<Rightarrow> int \<Rightarrow> bool \<Rightarrow> int \<Rightarrow> bool \<Rightarrow> erl_state \<Rightarrow> bool" where
  "draining M R i b j b' s \<longleftrightarrow>
     CapacityPerReservation s = R \<and> 0 \<le> j \<and> j + held b' \<le> i \<and> i + held b \<le> R \<and> R \<le> M
     \<and> chans s = [\<lparr>qcap = nat M, qlen = nat (M - i - held b + j)\<rparr>,
                  \<lparr>qcap = nat R, qlen = nat (i - j - held b')\<rparr>]
     \<and> tasks s = {#opener 1 i b, closer 1 j b'#}"

section \<open>Properties of the congestion manager\<close>

lemma prune_loop_dropWhile:
  "prune_loop ts i cutoff = dropWhile (\<lambda>t. \<not> After t cutoff) (drop i ts)"
proof (induction ts i cutoff rule: prune_loop.induct)
  case (1 ts i cutoff)
  show ?case
  proof (cases "i < length ts")
    case True
    then have d: "drop i ts = ts ! i # drop (Suc i) ts"
      by (simp add: Cons_nth_drop_Suc)
    show ?thesis
    proof (cases "After (ts ! i) cutoff")
      case True
      with \<open>i < length ts\<close> d show ?thesis by (subst prune_loop.simps) simp
    next
      case False
      with \<open>i < length ts\<close> d "1.IH" show ?thesis by (subst prune_loop.simps) simp
    qed
  next
    case False
    then show ?thesis by (subst prune_loop.simps) simp
  qed
qed

lemma sorted_dropWhile_filter:
  "sorted ts \<Longrightarrow> dropWhile (\<lambda>t. \<not> After t cutoff) ts = filter (\<lambda>t. After t cutoff) ts"
proof (induction ts)
  case Nil
  then show ?case by simp
next
  case (Cons x xs)
  show ?case
  proof (cases "After x cutoff")
    case True
    with Cons.prems have "\<forall>y\<in>set xs. After y cutoff"
      by (auto simp: After_def)
    then have "filter (\<lambda>t. After t cutoff) xs = xs" by (simp add: filter_id_conv)
    with True show ?thesis by simp
  next
    case False
    with Cons show ?thesis by simp
  qed
qed

lemma prune_slice_eq:
  "prune_slice xs cutoff =
     (dropWhile (\<lambda>t. \<not> After t cutoff) xs, int (length (dropWhile (\<lambda>t. \<not> After t cutoff) xs)))"
  by (simp add: prune_slice_def prune_loop_dropWhile Let_def)

text \<open>
  Claim C9 (postcondition of \<^verbatim>\<open>prune\<close>): for a list of time stamps in non-decreasing
  order and any cutoff, \<^verbatim>\<open>prune\<close> leaves exactly the elements that are strictly after
  the cutoff, which form a suffix of the list, and returns their number; for the nil
  pointer it returns 0.
\<close>

theorem prune_postcondition:
  assumes "sorted ts"
  shows "prune (Some ts) cutoff =
           (Some (filter (\<lambda>t. After t cutoff) ts), int (length (filter (\<lambda>t. After t cutoff) ts)))
         \<and> (\<exists>pre. ts = pre @ filter (\<lambda>t. After t cutoff) ts \<and> (\<forall>t\<in>set pre. \<not> After t cutoff))
         \<and> prune None cutoff = (None, 0)"
proof -
  let ?P = "\<lambda>t. \<not> After t cutoff"
  have e: "dropWhile ?P ts = filter (\<lambda>t. After t cutoff) ts"
    using assms by (rule sorted_dropWhile_filter)
  have "ts = takeWhile ?P ts @ dropWhile ?P ts" by simp
  moreover have "\<forall>t\<in>set (takeWhile ?P ts). \<not> After t cutoff"
    by (auto dest: set_takeWhileD)
  ultimately have "\<exists>pre. ts = pre @ filter (\<lambda>t. After t cutoff) ts \<and> (\<forall>t\<in>set pre. \<not> After t cutoff)"
    unfolding e [symmetric] by blast
  then show ?thesis
    by (simp add: prune_def prune_slice_eq e)
qed

theorem prune_postcondition_witness:
  "sorted [1, 3, 3, 5, 8 :: Time] \<and> prune (Some [1, 3, 3, 5, 8]) 3 = (Some [5, 8], 2)
   \<and> prune None 3 = (None, 0)"
  using prune_postcondition [of "[1, 3, 3, 5, 8]" 3] by (simp add: After_def)






lemma Pow_pos_4: "0 < x \<Longrightarrow> \<exists>y. Pow (Fin x) (Fin 4) = Fin y \<and> 0 < y"
  by (simp add: Pow_def fzero_def finf_def)

lemma Pow_zero_4: "fzero x \<Longrightarrow> Pow x (Fin 4) = Fin 0"
  by (auto simp: Pow_def fzero_def finf_def pow_zero_def odd_integer_def)

lemma feq_zero_cases: "feq x (Fin 0) \<Longrightarrow> fzero x"
  by (cases x) (auto simp: feq_def fzero_def finf_def)

lemma Pow_PInf_4: "Pow PInf (Fin 4) = PInf"
  by (simp add: Pow_def fzero_def finf_def)

lemma fgt_zero_cases: "fgt x (Fin 0) \<Longrightarrow> x = PInf \<or> (\<exists>v. x = Fin v \<and> 0 < v)"
  by (cases x) (auto simp: fgt_def split: if_splits)

text \<open>
  Claim C5 (zero target rate): with the exponent 4 that \<^verbatim>\<open>NewREDCongestionManager\<close>
  sets, a client whose arrival rate is greater than zero is dropped when the target rate
  compares equal to zero, whatever the random draw is: the quotient is then the positive
  infinity.
\<close>

theorem shouldDrop_zero_target:
  assumes e: "exp_red red = Fin 4"
    and pos: "fgt (arrivalRateFor red arrivals) (Fin 0)"
    and z: "feq tr (Fin 0)"
  shows "shouldDrop red tr c arrivals r = True"
proof -
  let ?rate = "arrivalRateFor red arrivals"
  have nz: "\<not> feq ?rate (Fin 0)"
    using fgt_zero_cases [OF pos] by (auto simp: feq_def finf_def)
  have d: "Pow tr (Fin 4) = Fin 0"
    using z by (intro Pow_zero_4 feq_zero_cases)
  have "fdiv (Pow ?rate (Fin 4)) (Pow tr (Fin 4)) = PInf"
  proof -
    from fgt_zero_cases [OF pos] show ?thesis
    proof
      assume "?rate = PInf"
      then show ?thesis by (simp add: Pow_PInf_4 d fdiv_def finf_def fzero_def)
    next
      assume "\<exists>v. ?rate = Fin v \<and> 0 < v"
      then obtain v where v: "?rate = Fin v" "0 < v" by blast
      from Pow_pos_4 [OF v(2)] obtain y where y: "Pow (Fin v) (Fin 4) = Fin y" "0 < y" by blast
      with v show ?thesis by (simp add: d fdiv_def finf_def fzero_def)
    qed
  qed
  with nz e show ?thesis
    by (simp add: shouldDrop_def fgt_def)
qed


theorem shouldDrop_zero_target_witness:
  "exp_red (NewREDCongestionManager (10 * Second) 1) = Fin 4
   \<and> fgt (arrivalRateFor (NewREDCongestionManager (10 * Second) 1) (Some [1, 2, 3])) (Fin 0)
   \<and> shouldDrop (NewREDCongestionManager (10 * Second) 1) (Fin 0) 7 (Some [1, 2, 3]) (9 / 10) = True"
proof -
  have a: "exp_red (NewREDCongestionManager (10 * Second) 1) = Fin 4"
    by (simp add: NewREDCongestionManager_def)
  have b: "fgt (arrivalRateFor (NewREDCongestionManager (10 * Second) 1) (Some [1, 2, 3])) (Fin 0)"
    by (simp add: NewREDCongestionManager_def arrivalRateFor_def Second_def fdiv_def
      fgt_def float64_of_int_def finf_def fzero_def signed_divide_int_def)
  have z: "feq (Fin 0) (Fin 0)" by (simp add: feq_def finf_def)
  from shouldDrop_zero_target [OF a b z] a b show ?thesis by simp
qed









section \<open>Properties of the elastic rate limiter\<close>

subsection \<open>Admission without interference\<close>

lemma call_run_Returned [simp]: "call_run n now sd (Returned r, s) = (Returned r, s)"
  by (cases n) simp_all

lemma ConsumeCapacity_call_run:
  "ConsumeCapacity s c now sd = call_run 3 now sd (Pending (call_begin s c), s)"
proof (cases "capacityByClient s c")
  case None
  show ?thesis
  proof (cases "openReservation s c")
    case (Inl err)
    with None show ?thesis
      by (simp add: ConsumeCapacity_def call_begin_def eval_nat_numeral)
  next
    case (Inr x)
    obtain q s1 where x: "x = (q, s1)" by (cases x)
    with None Inr show ?thesis
      by (cases "blockingConsume q (chans s1)")
        (simp_all add: ConsumeCapacity_def call_begin_def eval_nat_numeral)
  qed
next
  case (Some q)
  show ?thesis
  proof (cases "consume q s")
    case (Inr x)
    obtain cg s1 where x: "x = (cg, s1)" by (cases x)
    with Some Inr show ?thesis
      by (simp add: ConsumeCapacity_def call_begin_def eval_nat_numeral)
  next
    case (Inl err)
    show ?thesis
    proof (cases "cm s \<noteq> None \<and> enableCM s \<and> sd")
      case True
      with Some Inl show ?thesis
        by (simp add: ConsumeCapacity_def call_begin_def eval_nat_numeral)
    next
      case False
      with Some Inl show ?thesis
        by (cases "consume (sharedCapacity s) s")
          (auto simp add: ConsumeCapacity_def call_begin_def eval_nat_numeral)
    qed
  qed
qed

text \<open>
  Claim C2 (reservation isolation): when the client has a reservation queue that holds at
  least one token, \<^verbatim>\<open>ConsumeCapacity\<close> returns a guard of that queue and no error,
  whatever the other reservations and the shared queue hold; the token is taken from the
  reservation. This holds with and without a congestion manager; without one the state
  changes in the reservation queue only.
\<close>

theorem reservation_isolation:
  assumes "capacityByClient s c = Some q"
    and "q < length (chans s)"
    and "0 < qlen (chans s ! q)"
  shows "ConsumeCapacity s c now sd =
           (Returned (Inr \<lparr>cq = q\<rparr>),
            notify_consumed c now
              (s\<lparr>chans := (chans s)[q := (chans s ! q)\<lparr>qlen := qlen (chans s ! q) - 1\<rparr>]\<rparr>))
         \<and> (cm s = None \<longrightarrow>
              ConsumeCapacity s c now sd =
                (Returned (Inr \<lparr>cq = q\<rparr>),
                 s\<lparr>chans := (chans s)[q := (chans s ! q)\<lparr>qlen := qlen (chans s ! q) - 1\<rparr>]\<rparr>))"
  using assms by (simp add: ConsumeCapacity_def consume_def recv_def notify_consumed_def)


subsection \<open>Sums over multisets\<close>

lemma sum_mset_split:
  fixes f :: "'a \<Rightarrow> int"
  assumes "t \<in># T"
  shows "(\<Sum>x\<in>#T. f x) = (\<Sum>x\<in>#T - {#t#}. f x) + f t"
proof -
  from assms have "T = add_mset t (T - {#t#})" by simp
  then have "(\<Sum>x\<in>#T. f x) = (\<Sum>x\<in>#add_mset t (T - {#t#}). f x)" by simp
  then show ?thesis by simp
qed

lemma sum_mset_nonneg_int:
  fixes f :: "'a \<Rightarrow> int"
  shows "\<forall>x\<in>#T. 0 \<le> f x \<Longrightarrow> 0 \<le> (\<Sum>x\<in>#T. f x)"
  by (induction T) auto

lemma sum_mset_member_le:
  fixes f :: "'a \<Rightarrow> int"
  assumes "t \<in># T" and "\<forall>x\<in>#T. 0 \<le> f x"
  shows "f t \<le> (\<Sum>x\<in>#T. f x)"
proof -
  have "\<forall>x\<in>#T - {#t#}. 0 \<le> f x"
    using assms(2) by (meson in_diffD)
  then have "0 \<le> (\<Sum>x\<in>#T - {#t#}. f x)"
    by (rule sum_mset_nonneg_int)
  with sum_mset_split [OF assms(1), of f] show ?thesis by simp
qed

subsection \<open>Channel operations\<close>

lemma recv_Some:
  assumes "recv q h = Some h'"
  shows "q < length h" and "0 < qlen (h ! q)" and "length h' = length h"
    and "h' \<noteq> [] \<longleftrightarrow> h \<noteq> []"
    and "\<And>p. p < length h \<Longrightarrow> qcap (h' ! p) = qcap (h ! p)"
    and "\<And>p. p < length h \<Longrightarrow> qlen (h' ! p) = (if p = q then qlen (h ! q) - 1 else qlen (h ! p))"
    and "int (sum_list (map qlen h')) = int (sum_list (map qlen h)) - 1"
proof -
  from assms have q: "q < length h" "0 < qlen (h ! q)"
    and h': "h' = h[q := (h ! q)\<lparr>qlen := qlen (h ! q) - 1\<rparr>]"
    by (auto simp: recv_def split: if_splits)
  show "q < length h" "0 < qlen (h ! q)" by fact+
  show "length h' = length h" by (simp add: h')
  then show "h' \<noteq> [] \<longleftrightarrow> h \<noteq> []" by auto
  show "\<And>p. p < length h \<Longrightarrow> qcap (h' ! p) = qcap (h ! p)"
    using q by (auto simp: h' nth_list_update)
  show "\<And>p. p < length h \<Longrightarrow> qlen (h' ! p) = (if p = q then qlen (h ! q) - 1 else qlen (h ! p))"
    using q by (auto simp: h' nth_list_update)
  have "map qlen h' = (map qlen h)[q := qlen (h ! q) - 1]"
    by (simp add: h' map_update)
  then have "sum_list (map qlen h') = sum_list (map qlen h) + (qlen (h ! q) - 1) - qlen (h ! q)"
    using q by (simp add: sum_list_update)
  moreover have "qlen (h ! q) \<le> sum_list (map qlen h)"
    using q by (simp add: member_le_sum_list)
  ultimately show "int (sum_list (map qlen h')) = int (sum_list (map qlen h)) - 1"
    using q by linarith
qed

lemma send_Some:
  assumes "send q h = Some h'"
  shows "q < length h" and "qlen (h ! q) < qcap (h ! q)" and "length h' = length h"
    and "h' \<noteq> [] \<longleftrightarrow> h \<noteq> []"
    and "\<And>p. p < length h \<Longrightarrow> qcap (h' ! p) = qcap (h ! p)"
    and "\<And>p. p < length h \<Longrightarrow> qlen (h' ! p) = (if p = q then qlen (h ! q) + 1 else qlen (h ! p))"
    and "int (sum_list (map qlen h')) = int (sum_list (map qlen h)) + 1"
proof -
  from assms have q: "q < length h" "qlen (h ! q) < qcap (h ! q)"
    and h': "h' = h[q := (h ! q)\<lparr>qlen := qlen (h ! q) + 1\<rparr>]"
    by (auto simp: send_def split: if_splits)
  show "q < length h" "qlen (h ! q) < qcap (h ! q)" by fact+
  show "length h' = length h" by (simp add: h')
  then show "h' \<noteq> [] \<longleftrightarrow> h \<noteq> []" by auto
  show "\<And>p. p < length h \<Longrightarrow> qcap (h' ! p) = qcap (h ! p)"
    using q by (auto simp: h' nth_list_update)
  show "\<And>p. p < length h \<Longrightarrow> qlen (h' ! p) = (if p = q then qlen (h ! q) + 1 else qlen (h ! p))"
    using q by (auto simp: h' nth_list_update)
  have "map qlen h' = (map qlen h)[q := qlen (h ! q) + 1]"
    by (simp add: h' map_update)
  then have "sum_list (map qlen h') = sum_list (map qlen h) + (qlen (h ! q) + 1) - qlen (h ! q)"
    using q by (simp add: sum_list_update)
  then show "int (sum_list (map qlen h')) = int (sum_list (map qlen h)) + 1"
    by linarith
qed

lemma guard_eq [simp]: "(g = \<lparr>cq = q\<rparr>) \<longleftrightarrow> cq g = q"
  by (cases g) auto

lemma guard_eq' [simp]: "(\<lparr>cq = q\<rparr> = g) \<longleftrightarrow> cq g = q"
  by (cases g) auto

lemma sum_mset_all_zero:
  fixes f :: "'a \<Rightarrow> int"
  shows "\<forall>x\<in>#T. f x = 0 \<Longrightarrow> (\<Sum>x\<in>#T. f x) = 0"
  by (induction T) auto

subsection \<open>Preservation of the invariant\<close>

lemma I_static_same_shape:
  assumes "I_static M R h" and "length h' = length h"
    and "\<And>p. p < length h \<Longrightarrow> qcap (h' ! p) = qcap (h ! p)"
  shows "I_static M R h'"
proof -
  from assms(1) have "h \<noteq> []" by (simp add: I_static_def)
  then have "0 < length h" by simp
  with assms show ?thesis
    unfolding I_static_def by (metis length_0_conv)
qed

lemma Inv_take:
  assumes inv: "Inv M R m h T G" and r: "recv q h = Some h'"
  shows "Inv M R m h' T (G + {#\<lparr>cq = q\<rparr>#})"
proof -
  note f = recv_Some [OF r]
  have "I_static M R h'"
    using inv f(3,5) by (auto simp: Inv_def intro: I_static_same_shape)
  moreover have "I_total M h' T (G + {#\<lparr>cq = q\<rparr>#})"
    using inv f(7) by (simp add: Inv_def I_total_def)
  moreover have "I_tasks R h' T"
    using inv f(3) by (simp add: Inv_def I_tasks_def)
  moreover have "I_fed h' T"
    using inv f(3) by (simp add: Inv_def I_fed_def)
  moreover have "I_bal h' T (G + {#\<lparr>cq = q\<rparr>#})"
    unfolding I_bal_def
  proof (intro allI impI)
    fix p assume p: "0 < p \<and> p < length h'"
    with inv f(3) have b: "int (qlen (h ! p)) + int (count G \<lparr>cq = p\<rparr>)
        = (\<Sum>t\<in>#T. delivered p t) - (\<Sum>t\<in>#T. removed p t)"
      by (simp add: Inv_def I_bal_def)
    from p f(3) have "qlen (h' ! p) = (if p = q then qlen (h ! q) - 1 else qlen (h ! p))"
      by (simp add: f(6))
    with b f(2) show "int (qlen (h' ! p)) + int (count (G + {#\<lparr>cq = q\<rparr>#}) \<lparr>cq = p\<rparr>)
        = (\<Sum>t\<in>#T. delivered p t) - (\<Sum>t\<in>#T. removed p t)"
      by (auto simp: of_nat_diff)
  qed
  moreover have "I_guards h' (G + {#\<lparr>cq = q\<rparr>#})"
    using inv f(1,3) by (auto simp: Inv_def I_guards_def)
  moreover have "I_map M R m h'"
    using inv f(3) by (simp add: Inv_def I_map_def)
  moreover have "I_closing m h' T"
    using inv f(3) by (simp add: Inv_def I_closing_def)
  ultimately show ?thesis by (simp add: Inv_def)
qed

text \<open>A guard that is held can always be released: its queue has room.\<close>

lemma delivered_le:
  assumes "I_tasks R h T" and "I_fed h T" and "0 < q" and "q < length h"
  shows "(\<Sum>t\<in>#T. delivered q t + (if dst t = q then carried t else 0)) \<le> R"
proof -
  have "(\<Sum>t\<in>#T. delivered q t + (if dst t = q then carried t else 0)) \<le> (\<Sum>t\<in>#T. R * feeds q t)"
    using assms(1) by (intro sum_mset_mono) (auto simp: I_tasks_def delivered_def feeds_def)
  also have "\<dots> = R * (\<Sum>t\<in>#T. feeds q t)"
    by (simp add: sum_mset_distrib_left)
  also have "\<dots> = R" using assms(2-4) by (simp add: I_fed_def)
  finally show ?thesis .
qed

lemma removed_nonneg:
  assumes "I_tasks R h T"
  shows "0 \<le> (\<Sum>t\<in>#T. removed q t)"
  using assms by (intro sum_mset_nonneg_int) (auto simp: I_tasks_def removed_def carried_def)

lemma carried_nonneg: "0 \<le> (\<Sum>t\<in>#T. carried t)"
  by (intro sum_mset_nonneg_int) (auto simp: carried_def)

lemma dst_carried_nonneg: "0 \<le> (\<Sum>t\<in>#T. if dst t = q then carried t else 0)"
  by (intro sum_mset_nonneg_int) (auto simp: carried_def)

lemma sum_mset_add_int:
  fixes f g :: "'a \<Rightarrow> int"
  shows "(\<Sum>t\<in>#T. f t + g t) = (\<Sum>t\<in>#T. f t) + (\<Sum>t\<in>#T. g t)"
  by (induction T) auto

lemma reservation_fill_le:
  assumes inv: "Inv M R m h T G" and q: "0 < q" "q < length h"
  shows "int (qlen (h ! q)) + int (count G \<lparr>cq = q\<rparr>)
           + (\<Sum>t\<in>#T. if dst t = q then carried t else 0) \<le> R"
proof -
  from inv have t: "I_tasks R h T" and fd: "I_fed h T" and b: "I_bal h T G"
    by (simp_all add: Inv_def)
  from b q have "int (qlen (h ! q)) + int (count G \<lparr>cq = q\<rparr>)
      = (\<Sum>t\<in>#T. delivered q t) - (\<Sum>t\<in>#T. removed q t)"
    by (simp add: I_bal_def)
  moreover note removed_nonneg [OF t, of q]
  moreover from delivered_le [OF t fd q]
  have "(\<Sum>t\<in>#T. delivered q t) + (\<Sum>t\<in>#T. if dst t = q then carried t else 0) \<le> R"
    by (simp add: sum_mset_add_int)
  ultimately show ?thesis by linarith
qed

lemma shared_le:
  assumes inv: "Inv M R m h T G"
  shows "int (qlen (h ! 0)) + (\<Sum>t\<in>#T. carried t) + int (size G) \<le> M"
proof -
  from inv have "h \<noteq> []" and tot: "I_total M h T G"
    by (simp_all add: Inv_def I_static_def)
  then have "qlen (h ! 0) \<in> set (map qlen h)"
    by (metis length_greater_0_conv length_map nth_map nth_mem)
  then have "qlen (h ! 0) \<le> sum_list (map qlen h)"
    by (simp add: member_le_sum_list)
  with tot show ?thesis by (simp add: I_total_def)
qed

lemma release_has_room:
  assumes inv: "Inv M R m h T G" and g: "g \<in># G"
  shows "cq g < length h \<and> qlen (h ! cq g) < qcap (h ! cq g)"
proof -
  from inv g have r: "cq g < length h" by (auto simp: Inv_def I_guards_def)
  from inv have st: "I_static M R h" by (simp add: Inv_def)
  show ?thesis
  proof (cases "cq g = 0")
    case True
    from g have "1 \<le> size G" by (metis One_nat_def Suc_leI size_eq_0_iff_empty empty_iff gr0I set_mset_empty)
    with shared_le [OF inv] carried_nonneg [where T = T] have "int (qlen (h ! 0)) < M" by linarith
    with st True r show ?thesis by (simp add: I_static_def)
  next
    case False
    then have q: "0 < cq g" by simp
    from g have "1 \<le> count G \<lparr>cq = cq g\<rparr>" 
      by (metis One_nat_def Suc_leI count_greater_zero_iff guard_eq)
    with reservation_fill_le [OF inv q r] dst_carried_nonneg [where T = T and q = "cq g"]
    have "int (qlen (h ! cq g)) < R" by linarith
    with st q r show ?thesis by (simp add: I_static_def)
  qed
qed

lemma sum_mset_remove:
  fixes f :: "'a \<Rightarrow> int"
  assumes "t \<in># T"
  shows "(\<Sum>x\<in>#T - {#t#}. f x) = (\<Sum>x\<in>#T. f x) - f t"
  using sum_mset_split [OF assms, of f] by simp

lemma size_remove_int:
  assumes "g \<in># G"
  shows "int (size (G - {#g#})) = int (size G) - 1"
proof -
  from assms have "G = add_mset g (G - {#g#})" by simp
  then have "size G = Suc (size (G - {#g#}))" by (metis size_add_mset)
  then show ?thesis by simp
qed

lemma Inv_put_back:
  assumes inv: "Inv M R m h T G" and g: "g \<in># G" and s: "send (cq g) h = Some h'"
  shows "Inv M R m h' T (G - {#g#})"
proof -
  note f = send_Some [OF s]
  have "I_static M R h'"
    using inv f(3,5) by (auto simp: Inv_def intro: I_static_same_shape)
  moreover have "I_total M h' T (G - {#g#})"
  proof -
    from g have "int (size (G - {#g#})) = int (size G) - 1"
      by (rule size_remove_int)
    with inv f(7) show ?thesis by (simp add: Inv_def I_total_def del: size_Diff_singleton)
  qed
  moreover have "I_tasks R h' T"
    using inv f(3) by (simp add: Inv_def I_tasks_def)
  moreover have "I_fed h' T"
    using inv f(3) by (simp add: Inv_def I_fed_def)
  moreover have "I_bal h' T (G - {#g#})"
    unfolding I_bal_def
  proof (intro allI impI)
    fix p assume p: "0 < p \<and> p < length h'"
    with inv f(3) have b: "int (qlen (h ! p)) + int (count G \<lparr>cq = p\<rparr>)
        = (\<Sum>t\<in>#T. delivered p t) - (\<Sum>t\<in>#T. removed p t)"
      by (simp add: Inv_def I_bal_def)
    from p f(3) have l: "qlen (h' ! p) = (if p = cq g then qlen (h ! cq g) + 1 else qlen (h ! p))"
      by (simp add: f(6))
    have c: "int (count (G - {#g#}) \<lparr>cq = p\<rparr>)
        = int (count G \<lparr>cq = p\<rparr>) - (if p = cq g then 1 else 0)"
    proof (cases "p = cq g")
      case True
      from g have "1 \<le> count G \<lparr>cq = cq g\<rparr>"
        by (metis One_nat_def Suc_leI count_greater_zero_iff guard_eq)
      then have "int (count G \<lparr>cq = cq g\<rparr> - 1) = int (count G \<lparr>cq = cq g\<rparr>) - 1"
        by (simp add: of_nat_diff)
      with True show ?thesis by simp
    next
      case False
      then have "\<lparr>cq = p\<rparr> \<noteq> g" by auto
      with False show ?thesis by simp
    qed
    from b l c show "int (qlen (h' ! p)) + int (count (G - {#g#}) \<lparr>cq = p\<rparr>)
        = (\<Sum>t\<in>#T. delivered p t) - (\<Sum>t\<in>#T. removed p t)"
      by (simp split: if_splits)
  qed
  moreover have "I_guards h' (G - {#g#})"
    using inv f(3) by (auto simp: Inv_def I_guards_def dest: in_diffD)
  moreover have "I_map M R m h'"
    using inv f(3) by (simp add: Inv_def I_map_def)
  moreover have "I_closing m h' T"
    using inv f(3) by (simp add: Inv_def I_closing_def)
  ultimately show ?thesis by (simp add: Inv_def)
qed

lemma I_closing_replace:
  assumes "I_closing m h T" and "t \<in># T" and "src t' = src t" and "length h' = length h"
  shows "I_closing m h' (T - {#t#} + {#t'#})"
  unfolding I_closing_def
proof (intro allI impI)
  fix q assume q: "0 < q \<and> q < length h' \<and> q \<notin> ran m"
  with assms(1,4) obtain u where u: "u \<in># T" "src u = q"
    by (auto simp: I_closing_def)
  show "\<exists>x\<in>#T - {#t#} + {#t'#}. src x = q"
  proof (cases "u = t")
    case True
    with u assms(3) show ?thesis by auto
  next
    case False
    with u have "u \<in># T - {#t#}" by (simp add: in_diff_count)
    with u show ?thesis by auto
  qed
qed

lemma Inv_task_take:
  assumes inv: "Inv M R m h T G" and t: "t \<in># T" and nh: "\<not> holding t" and it: "iter t < R"
    and r: "recv (src t) h = Some h'"
  shows "Inv M R m h' (T - {#t#} + {#t\<lparr>holding := True\<rparr>#}) G"
proof -
  note f = recv_Some [OF r]
  let ?t' = "t\<lparr>holding := True\<rparr>"
  let ?T' = "T - {#t#} + {#?t'#}"
  have "I_static M R h'"
    using inv f(3,5) by (auto simp: Inv_def intro: I_static_same_shape)
  moreover have "I_total M h' ?T' G"
    using inv f(7) nh by (simp add: Inv_def I_total_def sum_mset_remove [OF t] carried_def)
  moreover have "I_tasks R h' ?T'"
    using inv f(3) t nh it
    by (auto simp: Inv_def I_tasks_def carried_def dest!: in_diffD)
  moreover have "I_fed h' ?T'"
    using inv f(3) by (simp add: Inv_def I_fed_def sum_mset_remove [OF t] feeds_def)
  moreover have "I_bal h' ?T' G"
    unfolding I_bal_def
  proof (intro allI impI)
    fix p assume p: "0 < p \<and> p < length h'"
    with inv f(3) have b: "int (qlen (h ! p)) + int (count G \<lparr>cq = p\<rparr>)
        = (\<Sum>t\<in>#T. delivered p t) - (\<Sum>t\<in>#T. removed p t)"
      by (simp add: Inv_def I_bal_def)
    from p f(3) have l: "qlen (h' ! p) = (if p = src t then qlen (h ! src t) - 1 else qlen (h ! p))"
      by (simp add: f(6))
    from b l f(2) nh show "int (qlen (h' ! p)) + int (count G \<lparr>cq = p\<rparr>)
        = (\<Sum>t\<in>#?T'. delivered p t) - (\<Sum>t\<in>#?T'. removed p t)"
      by (auto simp: sum_mset_remove [OF t] delivered_def removed_def carried_def of_nat_diff)
  qed
  moreover have "I_guards h' G"
    using inv f(3) by (simp add: Inv_def I_guards_def)
  moreover have "I_map M R m h'"
    using inv f(3) by (simp add: Inv_def I_map_def)
  moreover have "I_closing m h' ?T'"
    using inv t f(3) by (intro I_closing_replace) (simp_all add: Inv_def)
  ultimately show ?thesis by (simp add: Inv_def)
qed

lemma Inv_task_put:
  assumes inv: "Inv M R m h T G" and t: "t \<in># T" and ho: "holding t" and it: "iter t < R"
    and s: "send (dst t) h = Some h'"
  shows "Inv M R m h' (T - {#t#} + {#t\<lparr>iter := iter t + 1, holding := False\<rparr>#}) G"
proof -
  note f = send_Some [OF s]
  let ?t' = "t\<lparr>iter := iter t + 1, holding := False\<rparr>"
  let ?T' = "T - {#t#} + {#?t'#}"
  have "I_static M R h'"
    using inv f(3,5) by (auto simp: Inv_def intro: I_static_same_shape)
  moreover have "I_total M h' ?T' G"
    using inv f(7) ho by (simp add: Inv_def I_total_def sum_mset_remove [OF t] carried_def)
  moreover have "I_tasks R h' ?T'"
    using inv f(3) t ho it
    by (auto simp: Inv_def I_tasks_def carried_def dest!: in_diffD)
  moreover have "I_fed h' ?T'"
    using inv f(3) by (simp add: Inv_def I_fed_def sum_mset_remove [OF t] feeds_def)
  moreover have "I_bal h' ?T' G"
    unfolding I_bal_def
  proof (intro allI impI)
    fix p assume p: "0 < p \<and> p < length h'"
    with inv f(3) have b: "int (qlen (h ! p)) + int (count G \<lparr>cq = p\<rparr>)
        = (\<Sum>t\<in>#T. delivered p t) - (\<Sum>t\<in>#T. removed p t)"
      by (simp add: Inv_def I_bal_def)
    from p f(3) have l: "qlen (h' ! p) = (if p = dst t then qlen (h ! dst t) + 1 else qlen (h ! p))"
      by (simp add: f(6))
    from b l ho show "int (qlen (h' ! p)) + int (count G \<lparr>cq = p\<rparr>)
        = (\<Sum>t\<in>#?T'. delivered p t) - (\<Sum>t\<in>#?T'. removed p t)"
      by (auto simp: sum_mset_remove [OF t] delivered_def removed_def carried_def)
  qed
  moreover have "I_guards h' G"
    using inv f(3) by (simp add: Inv_def I_guards_def)
  moreover have "I_map M R m h'"
    using inv f(3) by (simp add: Inv_def I_map_def)
  moreover have "I_closing m h' ?T'"
    using inv t f(3) by (intro I_closing_replace) (simp_all add: Inv_def)
  ultimately show ?thesis by (simp add: Inv_def)
qed

lemma Inv_open:
  assumes inv: "Inv M R m h T G" and c: "m c = None"
    and room: "\<not> R > M - R * int (card (dom m))" and R: "\<not> R < 0"
  shows "Inv M R (m(c \<mapsto> length h)) (h @ [\<lparr>qcap = nat R, qlen = 0\<rparr>])
           (T + {#\<lparr>src = 0, dst = length h, iter = 0, holding = False\<rparr>#}) G"
proof -
  let ?h' = "h @ [\<lparr>qcap = nat R, qlen = 0\<rparr>]"
  let ?n = "\<lparr>src = 0, dst = length h, iter = 0, holding = False\<rparr>"
  let ?T' = "T + {#?n#}"
  from inv have st: "I_static M R h" and tk: "I_tasks R h T" and gd: "I_guards h G"
    and mp: "I_map M R m h"
    by (simp_all add: Inv_def)
  from st have ne: "h \<noteq> []" by (simp add: I_static_def)
  then have pos: "0 < length h" by simp
  have far_d: "\<forall>t\<in>#T. delivered (length h) t = 0"
    using tk by (auto simp: I_tasks_def delivered_def)
  have far_r: "\<forall>t\<in>#T. removed (length h) t = 0"
    using tk by (auto simp: I_tasks_def removed_def)
  have far_f: "\<forall>t\<in>#T. feeds (length h) t = 0"
    using tk by (auto simp: I_tasks_def feeds_def)
  have "I_static M R ?h'"
    using st R pos by (auto simp: I_static_def nth_append)
  moreover have "I_total M ?h' ?T' G"
    using inv by (simp add: Inv_def I_total_def carried_def)
  moreover have "I_tasks R ?h' ?T'"
    using tk R pos by (auto simp: I_tasks_def carried_def)
  moreover have "I_fed ?h' ?T'"
    unfolding I_fed_def
  proof (intro allI impI)
    fix q assume q: "0 < q \<and> q < length ?h'"
    show "(\<Sum>t\<in>#?T'. feeds q t) = 1"
    proof (cases "q = length h")
      case True
      with sum_mset_all_zero [OF far_f] show ?thesis by (simp add: feeds_def)
    next
      case False
      with q have "q < length h" by simp
      with q inv False show ?thesis by (simp add: Inv_def I_fed_def feeds_def)
    qed
  qed
  moreover have "I_bal ?h' ?T' G"
    unfolding I_bal_def
  proof (intro allI impI)
    fix q assume q: "0 < q \<and> q < length ?h'"
    show "int (qlen (?h' ! q)) + int (count G \<lparr>cq = q\<rparr>)
        = (\<Sum>t\<in>#?T'. delivered q t) - (\<Sum>t\<in>#?T'. removed q t)"
    proof (cases "q = length h")
      case True
      have "count G \<lparr>cq = length h\<rparr> = 0"
        using gd by (auto simp: I_guards_def count_eq_zero_iff)
      with True sum_mset_all_zero [OF far_d] sum_mset_all_zero [OF far_r] pos
      show ?thesis by (simp add: delivered_def removed_def carried_def)
    next
      case False
      with q have "q < length h" by simp
      with q inv False show ?thesis
        by (simp add: Inv_def I_bal_def delivered_def removed_def nth_append)
    qed
  qed
  moreover have "I_guards ?h' G"
    using gd by (auto simp: I_guards_def)
  moreover have "I_map M R (m(c \<mapsto> length h)) ?h'"
  proof -
    from mp have fin: "finite (dom m)" and inj: "inj_on m (dom m)"
      and rng: "\<forall>c q. m c = Some q \<longrightarrow> 0 < q \<and> q < length h"
      by (simp_all add: I_map_def)
    from c have "c \<notin> dom m" by auto
    with fin have "card (dom (m(c \<mapsto> length h))) = Suc (card (dom m))" by simp
    with room have "R * int (card (dom (m(c \<mapsto> length h)))) \<le> M"
      by (simp add: algebra_simps)
    moreover have "inj_on (m(c \<mapsto> length h)) (dom (m(c \<mapsto> length h)))"
      unfolding inj_on_def
    proof (intro ballI impI)
      fix x y assume "x \<in> dom (m(c \<mapsto> length h))" "y \<in> dom (m(c \<mapsto> length h))"
        and e: "(m(c \<mapsto> length h)) x = (m(c \<mapsto> length h)) y"
      show "x = y"
      proof (cases "x = c"; cases "y = c")
        assume "x \<noteq> c" "y \<noteq> c"
        with e \<open>x \<in> dom (m(c \<mapsto> length h))\<close> \<open>y \<in> dom (m(c \<mapsto> length h))\<close> inj
        show ?thesis by (auto simp: inj_on_def dom_def)
      next
        assume "x = c" "y \<noteq> c"
        with e have "m y = Some (length h)" by simp
        with rng have "length h < length h" by blast
        then show ?thesis by simp
      next
        assume "x \<noteq> c" "y = c"
        with e have "m x = Some (length h)" by simp
        with rng have "length h < length h" by blast
        then show ?thesis by simp
      qed simp
    qed
    moreover have "\<forall>c' q. (m(c \<mapsto> length h)) c' = Some q \<longrightarrow> 0 < q \<and> q < length ?h'"
      using rng pos by (auto split: if_splits simp: less_Suc_eq)
    ultimately show ?thesis using fin by (simp add: I_map_def)
  qed
  moreover have "I_closing (m(c \<mapsto> length h)) ?h' ?T'"
    unfolding I_closing_def
  proof (intro allI impI)
    fix q assume q: "0 < q \<and> q < length ?h' \<and> q \<notin> ran (m(c \<mapsto> length h))"
    have "length h \<in> ran (m(c \<mapsto> length h))" by (auto simp: ran_def)
    with q have ql: "q < length h" by (cases "q = length h") auto
    have "ran m \<subseteq> ran (m(c \<mapsto> length h))"
      using c by (auto simp: ran_def) (metis option.distinct(1))
    with q have "q \<notin> ran m" by auto
    with q ql inv obtain u where "u \<in># T" "src u = q"
      by (auto simp: Inv_def I_closing_def)
    then show "\<exists>t\<in>#?T'. src t = q" by auto
  qed
  ultimately show ?thesis by (simp add: Inv_def)
qed

lemma Inv_close:
  assumes inv: "Inv M R m h T G" and c: "m c = Some q"
  shows "Inv M R (m(c := None)) h (T + {#\<lparr>src = q, dst = 0, iter = 0, holding = False\<rparr>#}) G"
proof -
  let ?n = "\<lparr>src = q, dst = 0, iter = 0, holding = False\<rparr>"
  let ?T' = "T + {#?n#}"
  from inv have st: "I_static M R h" and tk: "I_tasks R h T" and mp: "I_map M R m h"
    by (simp_all add: Inv_def)
  from mp c have q: "0 < q" "q < length h" by (auto simp: I_map_def)
  with st have R: "0 \<le> R" by (auto simp: I_static_def)
  have "I_total M h ?T' G"
    using inv by (simp add: Inv_def I_total_def carried_def)
  moreover have "I_tasks R h ?T'"
    using tk R q by (auto simp: I_tasks_def carried_def)
  moreover have "I_fed h ?T'"
    using inv by (simp add: Inv_def I_fed_def feeds_def)
  moreover have "I_bal h ?T' G"
    using inv by (simp add: Inv_def I_bal_def delivered_def removed_def carried_def)
  moreover have "I_map M R (m(c := None)) h"
  proof -
    from mp have fin: "finite (dom m)" and inj: "inj_on m (dom m)"
      and rng: "\<forall>c q. m c = Some q \<longrightarrow> 0 < q \<and> q < length h"
      and bd: "R * int (card (dom m)) \<le> M"
      by (simp_all add: I_map_def)
    have "card (dom (m(c := None))) \<le> card (dom m)"
      using fin by (intro card_mono) auto
    then have "R * int (card (dom (m(c := None)))) \<le> R * int (card (dom m))"
      using R by (intro mult_left_mono) auto
    with bd have "R * int (card (dom (m(c := None)))) \<le> M" by linarith
    moreover have "inj_on (m(c := None)) (dom (m(c := None)))"
      using inj by (auto simp: inj_on_def dom_def split: if_splits)
    moreover have "\<forall>c' q. (m(c := None)) c' = Some q \<longrightarrow> 0 < q \<and> q < length h"
      using rng by (auto split: if_splits)
    ultimately show ?thesis using fin by (simp add: I_map_def)
  qed
  moreover have "I_closing (m(c := None)) h ?T'"
    unfolding I_closing_def
  proof (intro allI impI)
    fix p assume p: "0 < p \<and> p < length h \<and> p \<notin> ran (m(c := None))"
    show "\<exists>t\<in>#?T'. src t = p"
    proof (cases "p = q")
      case True
      then show ?thesis by simp
    next
      case False
      have "p \<notin> ran m"
      proof
        assume "p \<in> ran m"
        then obtain c' where c': "m c' = Some p" by (auto simp: ran_def)
        with c False have "c' \<noteq> c" by auto
        with c' have "(m(c := None)) c' = Some p" by simp
        then have "p \<in> ran (m(c := None))" unfolding ran_def by blast
        with p show False by simp
      qed
      with p inv obtain u where "u \<in># T" "src u = p"
        by (auto simp: Inv_def I_closing_def)
      then show ?thesis by auto
    qed
  qed
  ultimately show ?thesis using inv by (simp add: Inv_def)
qed

lemma fill_eq:
  "k + n \<le> c \<Longrightarrow> fill n 0 [\<lparr>qcap = c, qlen = k\<rparr>] = Some [\<lparr>qcap = c, qlen = k + n\<rparr>]"
  by (induction n arbitrary: k) (simp_all add: blockingRelease_def send_def)

lemma NewElasticRateLimiter_eq:
  "NewElasticRateLimiter M R cm0 nc cc =
     (if M < 0 then None
      else Some \<lparr> MaxCapacity = M, CapacityPerReservation = R,
                  sharedCapacity = 0, capacityByClient = Map.empty,
                  noCapacityCounter = nc, cm = cm0, enableCM = False,
                  congestionControlCounter = cc,
                  chans = [\<lparr>qcap = nat M, qlen = nat M\<rparr>], tasks = {#}, guards = {#}, calls = {#} \<rparr>)"
  using fill_eq [of 0 "nat M" "nat M"] by (simp add: NewElasticRateLimiter_def)

lemma invariant_New:
  "NewElasticRateLimiter M R cm0 nc cc = Some s \<Longrightarrow> invariant s"
  by (auto simp: NewElasticRateLimiter_eq invariant_def Inv_def I_static_def I_total_def
      I_tasks_def I_fed_def I_bal_def I_guards_def I_map_def I_closing_def split: if_splits)

lemma openReservation_Inr:
  assumes "openReservation s c = Inr (q, s1)"
  shows "capacityByClient s c = None"
    and "\<not> CapacityPerReservation s
            > MaxCapacity s - CapacityPerReservation s * int (card (dom (capacityByClient s)))"
    and "\<not> CapacityPerReservation s < 0"
    and "q = length (chans s)"
    and "s1 = s\<lparr> chans := chans s @ [\<lparr>qcap = nat (CapacityPerReservation s), qlen = 0\<rparr>],
                 capacityByClient := (capacityByClient s)(c \<mapsto> length (chans s)),
                 tasks := tasks s
                   + {#\<lparr>src = sharedCapacity s, dst = length (chans s), iter = 0, holding = False\<rparr>#} \<rparr>"
  using assms by (auto simp: openReservation_def Let_def split: if_splits)

lemma invariant_open:
  assumes "invariant s" and "openReservation s c = Inr (q, s1)"
  shows "invariant s1"
proof -
  note f = openReservation_Inr [OF assms(2)]
  from assms(1) have sh: "sharedCapacity s = 0"
    and inv: "Inv (MaxCapacity s) (CapacityPerReservation s) (capacityByClient s) (chans s) (tasks s) (guards s)"
    by (simp_all add: invariant_def)
  from Inv_open [OF inv f(1) f(2) f(3)] sh show ?thesis
    by (simp add: f(5) invariant_def)
qed

lemma invariant_close:
  assumes "invariant s"
  shows "invariant (closeReservation s c)"
proof (cases "capacityByClient s c")
  case None
  with assms show ?thesis by (simp add: closeReservation_def)
next
  case (Some q)
  from assms have sh: "sharedCapacity s = 0"
    and inv: "Inv (MaxCapacity s) (CapacityPerReservation s) (capacityByClient s) (chans s) (tasks s) (guards s)"
    by (simp_all add: invariant_def)
  from Inv_close [OF inv Some] sh Some assms show ?thesis
    by (simp add: closeReservation_def invariant_def)
qed

lemma invariant_recv:
  assumes "invariant s" and "recv q (chans s) = Some h"
  shows "invariant (s\<lparr>chans := h, guards := guards s + {#\<lparr>cq = q\<rparr>#}\<rparr>)"
proof -
  from assms(1) have sh: "sharedCapacity s = 0"
    and inv: "Inv (MaxCapacity s) (CapacityPerReservation s) (capacityByClient s) (chans s) (tasks s) (guards s)"
    by (simp_all add: invariant_def)
  from Inv_take [OF inv assms(2)] sh show ?thesis
    by (simp add: invariant_def)
qed

lemma invariant_transfer:
  assumes "invariant s" and "t \<in># tasks s" and "transfer_step t s = Some s'"
  shows "invariant s'"
proof -
  from assms(1) have sh: "sharedCapacity s = 0"
    and inv: "Inv (MaxCapacity s) (CapacityPerReservation s) (capacityByClient s) (chans s) (tasks s) (guards s)"
    by (simp_all add: invariant_def)
  from assms(3) have it: "iter t < CapacityPerReservation s"
    by (auto simp: transfer_step_def split: if_splits)
  show ?thesis
  proof (cases "holding t")
    case False
    with assms(3) it obtain h where h: "recv (src t) (chans s) = Some h"
      and s': "s' = s\<lparr>chans := h, tasks := tasks s - {#t#} + {#t\<lparr>holding := True\<rparr>#}\<rparr>"
      by (auto simp: transfer_step_def blockingConsume_def split: option.splits)
    from Inv_task_take [OF inv assms(2) False it h] sh show ?thesis
      by (simp add: s' invariant_def)
  next
    case True
    with assms(3) it obtain h where h: "send (dst t) (chans s) = Some h"
      and s': "s' = s\<lparr>chans := h,
                      tasks := tasks s - {#t#} + {#t\<lparr>iter := iter t + 1, holding := False\<rparr>#}\<rparr>"
      by (auto simp: transfer_step_def blockingRelease_def split: option.splits)
    from Inv_task_put [OF inv assms(2) True it h] sh show ?thesis
      by (simp add: s' invariant_def)
  qed
qed

lemma invariant_release:
  assumes "invariant s" and "cg \<in># guards s"
  shows "invariant ((snd (Release cg s))\<lparr>guards := guards s - {#cg#}\<rparr>)"
proof -
  from assms(1) have sh: "sharedCapacity s = 0"
    and inv: "Inv (MaxCapacity s) (CapacityPerReservation s) (capacityByClient s) (chans s) (tasks s) (guards s)"
    by (simp_all add: invariant_def)
  from release_has_room [OF inv assms(2)]
  obtain h where h: "send (cq cg) (chans s) = Some h"
    by (auto simp: send_def)
  from Inv_put_back [OF inv assms(2) h] sh show ?thesis
    by (simp add: Release_def h invariant_def)
qed

lemma invariant_call_step:
  assumes inv: "invariant s" and st: "call_step k now sd s = Some x" and fc: "finish_call k x = Some s'"
  shows "invariant s'"
proof (cases k)
  case (AtOpen c)
  show ?thesis
  proof (cases "openReservation s c")
    case (Inl err)
    with AtOpen st fc inv show ?thesis
      by (auto simp: finish_call_def invariant_def split: if_splits)
  next
    case (Inr y)
    obtain q s1 where y: "y = (q, s1)" by (cases y)
    from invariant_open [OF inv Inr [unfolded y]] have "invariant s1" .
    with AtOpen st fc Inr y show ?thesis
      by (auto simp: finish_call_def invariant_def)
  qed
next
  case (AtBlockingConsume c q)
  with st obtain h where h: "recv q (chans s) = Some h"
    and x: "x = (Returned (Inr \<lparr>cq = q\<rparr>), s\<lparr>chans := h\<rparr>)"
    by (auto simp: blockingConsume_def split: option.splits)
  from invariant_recv [OF inv h] fc x show ?thesis
    by (auto simp: finish_call_def invariant_def)
next
  case (AtReserved c q en)
  show ?thesis
  proof (cases "recv q (chans s)")
    case None
    with AtReserved st fc inv show ?thesis
      by (auto simp: consume_def finish_call_def invariant_def)
  next
    case (Some h)
    from invariant_recv [OF inv Some] AtReserved st fc Some show ?thesis
      by (auto simp: consume_def finish_call_def invariant_def notify_consumed_def split: option.splits)
  qed
next
  case (AtGate c en)
  with st fc inv show ?thesis
    by (auto simp: finish_call_def invariant_def split: if_splits)
next
  case (AtShared c)
  show ?thesis
  proof (cases "recv (sharedCapacity s) (chans s)")
    case None
    with AtShared st fc inv show ?thesis
      by (auto simp: consume_def finish_call_def invariant_def)
  next
    case (Some h)
    from invariant_recv [OF inv Some] AtShared st fc Some show ?thesis
      by (auto simp: consume_def finish_call_def invariant_def notify_consumed_def split: option.splits)
  qed
qed

lemma invariant_step:
  assumes inv: "invariant s" and st: "step e s = Some s'"
  shows "invariant s'"
proof (cases e)
  case (Call c)
  with st inv show ?thesis by (auto simp: invariant_def)
next
  case (CallStep k now sd)
  with st obtain x where "call_step k now sd s = Some x" "finish_call k x = Some s'"
    by (auto split: if_splits option.splits)
  with inv show ?thesis by (rule invariant_call_step)
next
  case (ReleaseGuard cg)
  with st inv show ?thesis by (auto split: if_splits intro: invariant_release)
next
  case (Open c)
  show ?thesis
  proof (cases "openReservation s c")
    case (Inl err)
    with Open st inv show ?thesis by (auto split: if_splits)
  next
    case (Inr y)
    obtain q s1 where y: "y = (q, s1)" by (cases y)
    from invariant_open [OF inv Inr [unfolded y]] Open st Inr y show ?thesis by simp
  qed
next
  case (Close c)
  with st inv show ?thesis by (auto intro: invariant_close)
next
  case (TransferStep t)
  with st inv show ?thesis by (auto split: if_splits intro: invariant_transfer)
next
  case Enable
  with st inv show ?thesis by (auto simp: EnableCongestionControl_def invariant_def)
next
  case Disable
  with st inv show ?thesis by (auto simp: DisableCongestionControl_def invariant_def)
qed

lemma invariant_exec:
  "invariant s \<Longrightarrow> exec es s = Some s' \<Longrightarrow> invariant s'"
proof (induction es arbitrary: s)
  case Nil
  then show ?case by simp
next
  case (Cons e es)
  from Cons.prems(2) obtain s1 where s1: "step e s = Some s1" "exec es s1 = Some s'"
    by (auto split: option.splits)
  from invariant_step [OF Cons.prems(1) s1(1)] s1(2) show ?case
    by (rule Cons.IH)
qed

subsection \<open>Quiescent states\<close>

lemma quiesced_not_holding:
  assumes inv: "Inv M R m h T G" and t: "t \<in># T" and ho: "holding t"
  shows "send (dst t) h \<noteq> None"
proof -
  from inv have st: "I_static M R h" and tk: "I_tasks R h T" by (simp_all add: Inv_def)
  from tk t have d: "dst t < length h" by (simp add: I_tasks_def)
  from ho have c1: "carried t = 1" by (simp add: carried_def)
  have "qlen (h ! dst t) < qcap (h ! dst t)"
  proof (cases "dst t = 0")
    case True
    have "carried t \<le> (\<Sum>x\<in>#T. carried x)"
      using t by (rule sum_mset_member_le) (simp add: carried_def)
    with c1 shared_le [OF inv] have "int (qlen (h ! 0)) < M" by linarith
    with st True show ?thesis by (simp add: I_static_def)
  next
    case False
    then have q: "0 < dst t" by simp
    have "(if dst t = dst t then carried t else 0)
            \<le> (\<Sum>x\<in>#T. if dst x = dst t then carried x else 0)"
      using t by (rule sum_mset_member_le) (simp add: carried_def)
    with c1 reservation_fill_le [OF inv q d] have "int (qlen (h ! dst t)) < R" by simp
    with st q d show ?thesis by (simp add: I_static_def)
  qed
  with d show ?thesis by (simp add: send_def)
qed

lemma closed_queue_empty:
  assumes inv: "Inv M R m h T G" and u: "u \<in># T" and nh: "\<not> holding u"
    and q: "0 < src u" "src u < length h"
    and stuck: "\<not> iter u < R \<or> recv (src u) h = None"
  shows "qlen (h ! src u) = 0"
proof (cases "iter u < R")
  case True
  with stuck have "recv (src u) h = None" by simp
  with q show ?thesis by (simp add: recv_def split: if_splits)
next
  case False
  from inv have tk: "I_tasks R h T" and fd: "I_fed h T" and b: "I_bal h T G"
    by (simp_all add: Inv_def)
  have "removed (src u) u \<le> (\<Sum>x\<in>#T. removed (src u) x)"
    using u tk by (intro sum_mset_member_le) (auto simp: I_tasks_def removed_def carried_def)
  with False have r: "R \<le> (\<Sum>x\<in>#T. removed (src u) x)"
    by (simp add: removed_def carried_def nh)
  from delivered_le [OF tk fd q] dst_carried_nonneg [where T = T and q = "src u"]
  have d: "(\<Sum>x\<in>#T. delivered (src u) x) \<le> R"
    by (simp add: sum_mset_add_int)
  from b q have "int (qlen (h ! src u)) + int (count G \<lparr>cq = src u\<rparr>)
      = (\<Sum>t\<in>#T. delivered (src u) t) - (\<Sum>t\<in>#T. removed (src u) t)"
    by (simp add: I_bal_def)
  with r d show ?thesis by linarith
qed

lemma sum_over_reservations:
  assumes mp: "I_map M R m h" and ne: "h \<noteq> []"
    and closed: "\<And>q. 0 < q \<Longrightarrow> q < length h \<Longrightarrow> q \<notin> ran m \<Longrightarrow> qlen (h ! q) = 0"
  shows "sum_list (map qlen h) = qlen (h ! 0) + (\<Sum>c \<in> dom m. qlen (h ! the (m c)))"
proof -
  let ?f = "\<lambda>q. qlen (h ! q)"
  let ?A = "ran m"
  let ?B = "{q. 0 < q \<and> q < length h \<and> q \<notin> ran m}"
  from mp have fin: "finite (dom m)" and inj: "inj_on m (dom m)"
    and rng: "\<forall>c q. m c = Some q \<longrightarrow> 0 < q \<and> q < length h"
    by (simp_all add: I_map_def)
  have ranA: "?A = (\<lambda>c. the (m c)) ` dom m"
    by (auto simp: ran_def dom_def image_def)
  have finA: "finite ?A" using fin by (simp add: ranA)
  have finB: "finite ?B" by simp
  have inj': "inj_on (\<lambda>c. the (m c)) (dom m)"
    using inj by (auto simp: inj_on_def dom_def)
  have split: "{0..<length h} = insert 0 (?A \<union> ?B)"
    using rng ne by (auto simp: ran_def)
  have z: "0 \<notin> ?A \<union> ?B" using rng by (auto simp: ran_def)
  have dj: "?A \<inter> ?B = {}" by auto
  have "sum_list (map qlen h) = (\<Sum>q = 0..<length h. ?f q)"
    by (simp add: sum_list_sum_nth)
  also have "\<dots> = ?f 0 + sum ?f (?A \<union> ?B)"
    using z finA finB by (simp add: split)
  also have "sum ?f (?A \<union> ?B) = sum ?f ?A + sum ?f ?B"
    using finA finB dj by (rule sum.union_disjoint)
  also have "sum ?f ?B = 0"
    using closed by simp
  also have "sum ?f ?A = (\<Sum>c \<in> dom m. ?f (the (m c)))"
    unfolding ranA using inj' by (simp add: sum.reindex)
  finally show ?thesis by simp
qed

lemma conservation_core:
  assumes inv: "invariant s" and qu: "quiesced s"
  shows "int (shared_tokens s) + int (reservation_tokens s) + int (size (guards s)) = MaxCapacity s"
proof -
  let ?M = "MaxCapacity s" and ?R = "CapacityPerReservation s" and ?m = "capacityByClient s"
  let ?h = "chans s" and ?T = "tasks s" and ?G = "guards s"
  from inv have sh: "sharedCapacity s = 0" and I: "Inv ?M ?R ?m ?h ?T ?G"
    by (simp_all add: invariant_def)
  from I have tk: "I_tasks ?R ?h ?T" and tot: "I_total ?M ?h ?T ?G" and mp: "I_map ?M ?R ?m ?h"
    and ne: "?h \<noteq> []" and cl: "I_closing ?m ?h ?T"
    by (simp_all add: Inv_def I_static_def)
  have nohold: "\<not> holding t" if t: "t \<in># ?T" for t
  proof
    assume ho: "holding t"
    with tk t have "iter t < ?R" by (auto simp: I_tasks_def carried_def)
    moreover from qu t have "transfer_step t s = None" by (simp add: quiesced_def)
    ultimately have "send (dst t) ?h = None"
      using ho by (simp add: transfer_step_def blockingRelease_def split: option.splits)
    with quiesced_not_holding [OF I t ho] show False by simp
  qed
  then have carried0: "(\<Sum>t\<in>#?T. carried t) = 0"
    by (intro sum_mset_all_zero) (simp add: carried_def)
  have closed: "qlen (?h ! q) = 0" if q: "0 < q" "q < length ?h" "q \<notin> ran ?m" for q
  proof -
    from cl q obtain u where u: "u \<in># ?T" "src u = q" by (auto simp: I_closing_def)
    from qu u have "transfer_step u s = None" by (simp add: quiesced_def)
    with nohold [OF u(1)] have "\<not> iter u < ?R \<or> recv (src u) ?h = None"
      by (auto simp: transfer_step_def blockingConsume_def split: if_splits option.splits)
    with closed_queue_empty [OF I u(1) nohold [OF u(1)]] q u show ?thesis by simp
  qed
  from sum_over_reservations [OF mp ne closed]
  have "sum_list (map qlen ?h) = shared_tokens s + reservation_tokens s"
    by (simp add: shared_tokens_def reservation_tokens_def sh)
  with tot carried0 show ?thesis by (simp add: I_total_def)
qed

lemma completed_quiesced: "completed s \<Longrightarrow> quiesced s"
  by (simp add: completed_def quiesced_def transfer_step_def)

lemma step_constants:
  assumes "step e s = Some s'"
  shows "MaxCapacity s' = MaxCapacity s \<and> CapacityPerReservation s' = CapacityPerReservation s
         \<and> sharedCapacity s' = sharedCapacity s"
proof (cases e)
  case (CallStep k now sd)
  with assms show ?thesis
    by (cases k)
      (auto simp: finish_call_def openReservation_def consume_def notify_consumed_def Let_def
        split: if_splits option.splits sum.splits prod.splits)
next
  case (ReleaseGuard cg)
  with assms show ?thesis by (auto simp: Release_def split: if_splits option.splits)
next
  case (Open c)
  with assms show ?thesis
    by (auto simp: openReservation_def Let_def split: if_splits sum.splits)
next
  case (Close c)
  with assms show ?thesis by (auto simp: closeReservation_def split: option.splits)
next
  case (TransferStep t)
  with assms show ?thesis by (auto simp: transfer_step_def split: if_splits option.splits)
qed (use assms in \<open>auto simp: EnableCongestionControl_def DisableCongestionControl_def\<close>)

lemma exec_constants:
  "exec es s = Some s' \<Longrightarrow>
   MaxCapacity s' = MaxCapacity s \<and> CapacityPerReservation s' = CapacityPerReservation s
   \<and> sharedCapacity s' = sharedCapacity s"
proof (induction es arbitrary: s)
  case Nil
  then show ?case by simp
next
  case (Cons e es)
  from Cons.prems obtain s1 where s1: "step e s = Some s1" "exec es s1 = Some s'"
    by (auto split: option.splits)
  from step_constants [OF s1(1)] Cons.IH [OF s1(2)] show ?case by simp
qed

text \<open>
  A send is attempted only on channels with a buffer: by a goroutine that holds a token, or
  by the release of a guard that is held. And the product that \<^verbatim>\<open>openReservation\<close>
  computes lies between 0 and the maximal capacity.
\<close>

lemma sends_on_buffered_channels:
  assumes "Inv M R m h T G"
  shows "(\<forall>t\<in>#T. holding t \<longrightarrow> 0 < qcap (h ! dst t)) \<and> (\<forall>g\<in>#G. 0 < qcap (h ! cq g))"
proof (intro conjI ballI impI)
  fix t assume "t \<in># T" "holding t"
  from quiesced_not_holding [OF assms this] show "0 < qcap (h ! dst t)"
    by (auto simp: send_def split: if_splits)
next
  fix g assume "g \<in># G"
  from release_has_room [OF assms this] show "0 < qcap (h ! cq g)" by auto
qed

lemma reservation_product_in_range:
  assumes "invariant s"
  shows "0 \<le> CapacityPerReservation s * int (card (dom (capacityByClient s)))
       \<and> CapacityPerReservation s * int (card (dom (capacityByClient s))) \<le> MaxCapacity s"
proof -
  let ?m = "capacityByClient s"
  from assms have st: "I_static (MaxCapacity s) (CapacityPerReservation s) (chans s)"
    and mp: "I_map (MaxCapacity s) (CapacityPerReservation s) ?m (chans s)"
    by (simp_all add: invariant_def Inv_def)
  have "0 \<le> CapacityPerReservation s * int (card (dom ?m))"
  proof (cases "dom ?m = {}")
    case True
    then show ?thesis by simp
  next
    case False
    then obtain c where "c \<in> dom ?m" by blast
    then obtain q where "?m c = Some q" by blast
    with mp st have "0 \<le> CapacityPerReservation s" by (auto simp: I_map_def I_static_def)
    then show ?thesis by simp
  qed
  with mp show ?thesis by (simp add: I_map_def)
qed

subsection \<open>The claims about executions\<close>

lemma exec_append:
  "exec (es @ fs) s = (case exec es s of None \<Rightarrow> None | Some s1 \<Rightarrow> exec fs s1)"
  by (induction es arbitrary: s) (auto split: option.splits)

lemma transfer_step_frame:
  assumes "t \<in># tasks s" and "transfer_step t s = Some s'"
  shows "guards s' = guards s \<and> capacityByClient s' = capacityByClient s
         \<and> size (tasks s') = size (tasks s) \<and> length (chans s') = length (chans s)"
proof -
  from assms(1) have "size (tasks s - {#t#}) + 1 = size (tasks s)"
    by (metis Suc_eq_plus1 insert_DiffM size_add_mset)
  with assms(2) show ?thesis
    by (auto simp: transfer_step_def blockingConsume_def blockingRelease_def recv_def send_def
        simp del: size_Diff_singleton split: if_splits option.splits)
qed

lemma exec_transfers_frame:
  "exec (map TransferStep ts) s = Some s' \<Longrightarrow>
   guards s' = guards s \<and> capacityByClient s' = capacityByClient s
   \<and> size (tasks s') = size (tasks s) \<and> length (chans s') = length (chans s)"
proof (induction ts arbitrary: s)
  case Nil
  then show ?case by simp
next
  case (Cons t ts)
  from Cons.prems obtain s1 where s1: "t \<in># tasks s" "transfer_step t s = Some s1"
    "exec (map TransferStep ts) s1 = Some s'"
    by (auto split: option.splits if_splits)
  from transfer_step_frame [OF s1(1,2)] Cons.IH [OF s1(3)] show ?case by simp
qed

text \<open>
  Claim C1 (token conservation): in every state that an execution reaches from a freshly
  constructed limiter and in which the transfer goroutines have quiesced, the tokens in
  the shared queue, the tokens in the reservation queues of the map and the guards held
  add up to the maximal capacity.
\<close>

theorem token_conservation:
  assumes "NewElasticRateLimiter M R cm0 nc cc = Some s0"
    and "exec es s0 = Some s"
    and "quiesced s"
  shows "int (shared_tokens s) + int (reservation_tokens s) + int (size (guards s)) = M"
proof -
  from assms(1) have "invariant s0" by (rule invariant_New)
  then have "invariant s" using assms(2) by (rule invariant_exec)
  from conservation_core [OF this assms(3)] exec_constants [OF assms(2)] assms(1)
  show ?thesis by (auto simp: NewElasticRateLimiter_eq split: if_splits)
qed

text \<open>
  Claim C3 (overprovisioning bound): in every reachable state the capacity per reservation
  times the number of entries of the map is at most the maximal capacity;
  \<^verbatim>\<open>openReservation\<close> returns an error and leaves the state as it is whenever the
  capacity per reservation exceeds what remains; \<^verbatim>\<open>closeReservation\<close> only removes
  entries.
\<close>

theorem overprovisioning_bound:
  assumes "NewElasticRateLimiter M R cm0 nc cc = Some s0"
    and "exec es s0 = Some s"
  shows "CapacityPerReservation s = R \<and> MaxCapacity s = M
       \<and> R * int (card (dom (capacityByClient s))) \<le> M
       \<and> (R > M - R * int (card (dom (capacityByClient s))) \<longrightarrow>
            (\<exists>err. openReservation s c = Inl err
               \<and> (err = AlreadyReserved
                    \<or> err = NotEnoughCapacity (M - R * int (card (dom (capacityByClient s)))) R)
               \<and> step (Open c) s = Some s
               \<and> call_step (AtOpen c) now sd s = Some (Returned (Inl err), s)))
       \<and> dom (capacityByClient (closeReservation s c)) \<subseteq> dom (capacityByClient s)"
proof -
  from assms(1) have "invariant s0" by (rule invariant_New)
  then have "invariant s" using assms(2) by (rule invariant_exec)
  then have b: "CapacityPerReservation s * int (card (dom (capacityByClient s))) \<le> MaxCapacity s"
    by (simp add: invariant_def Inv_def I_map_def)
  from exec_constants [OF assms(2)] assms(1)
  have k: "CapacityPerReservation s = R" "MaxCapacity s = M"
    by (auto simp: NewElasticRateLimiter_eq split: if_splits)
  have "dom (capacityByClient (closeReservation s c)) \<subseteq> dom (capacityByClient s)"
    by (auto simp: closeReservation_def split: option.splits if_splits)
  with b k show ?thesis
    by (auto simp: openReservation_def Let_def)
qed

text \<open>The goroutines of one opened and closed reservation always make progress.\<close>

lemma filling_step:
  assumes "filling M R i b s" and "step (TransferStep t) s = Some s'"
  shows "\<exists>i' b'. filling M R i' b' s'"
proof -
  from assms have t: "t = opener 1 i b" by (auto simp: filling_def split: if_splits)
  show ?thesis
  proof (cases b)
    case True
    with assms t have "filling M R (i + 1) False s'"
      by (auto simp: filling_def held_def opener_def transfer_step_def blockingRelease_def send_def
          nat_add_distrib split: if_splits)
    then show ?thesis by blast
  next
    case False
    with assms t have "filling M R i True s'"
      by (auto simp: filling_def held_def opener_def transfer_step_def blockingConsume_def recv_def
          nat_diff_distrib split: if_splits)
    then show ?thesis by blast
  qed
qed

lemma draining_step:
  assumes "draining M R i b j b' s" and "step (TransferStep t) s = Some s'"
  shows "\<exists>i1 b1 j1 b1'. draining M R i1 b1 j1 b1' s'
            \<and> 2 * (R - i1) - held b1 + (2 * (R - j1) - held b1')
                < 2 * (R - i) - held b + (2 * (R - j) - held b')"
proof -
  from assms have "t = opener 1 i b \<or> t = closer 1 j b'"
    by (auto simp: draining_def split: if_splits)
  then show ?thesis
  proof
    assume t: "t = opener 1 i b"
    show ?thesis
    proof (cases b)
      case True
      with assms t have "draining M R (i + 1) False j b' s'"
        by (auto simp: draining_def held_def opener_def closer_def transfer_step_def
            blockingRelease_def send_def nat_add_distrib split: if_splits)
      with True show ?thesis by (intro exI [of _ "i + 1"] exI [of _ False] exI [of _ j] exI [of _ b'])
          (simp add: held_def)
    next
      case False
      with assms t have "draining M R i True j b' s'"
        by (auto simp: draining_def held_def opener_def closer_def transfer_step_def
            blockingConsume_def recv_def nat_diff_distrib split: if_splits)
      with False show ?thesis by (intro exI [of _ i] exI [of _ True] exI [of _ j] exI [of _ b'])
          (simp add: held_def)
    qed
  next
    assume t: "t = closer 1 j b'"
    show ?thesis
    proof (cases b')
      case True
      with assms t have "draining M R i b (j + 1) False s'"
        by (auto simp: draining_def held_def opener_def closer_def transfer_step_def
            blockingRelease_def send_def nat_add_distrib add_mset_commute split: if_splits)
      with True show ?thesis by (intro exI [of _ i] exI [of _ b] exI [of _ "j + 1"] exI [of _ False])
          (simp add: held_def)
    next
      case False
      with assms t have "draining M R i b j True s'"
        by (auto simp: draining_def held_def opener_def closer_def transfer_step_def
            blockingConsume_def recv_def nat_diff_distrib add_mset_commute split: if_splits)
      with False show ?thesis by (intro exI [of _ i] exI [of _ b] exI [of _ j] exI [of _ True])
          (simp add: held_def)
    qed
  qed
qed

lemma draining_progress:
  assumes d: "draining M R i b j b' s" and nc: "\<not> completed s"
  shows "\<exists>t s'. step (TransferStep t) s = Some s'"
proof (cases "i < R")
  case True
  with d have "step (TransferStep (opener 1 i b)) s \<noteq> None"
    by (cases b)
      (auto simp: draining_def held_def opener_def closer_def transfer_step_def
        blockingConsume_def blockingRelease_def recv_def send_def split: if_splits)
  then show ?thesis by blast
next
  case False
  with d have i: "i = R" "\<not> b" by (auto simp: draining_def held_def split: if_splits)
  with d nc have "j < R"
    by (auto simp: draining_def completed_def held_def opener_def closer_def split: if_splits)
  with d i have "step (TransferStep (closer 1 j b')) s \<noteq> None"
    by (cases b')
      (auto simp: draining_def held_def opener_def closer_def transfer_step_def
        blockingConsume_def blockingRelease_def recv_def send_def split: if_splits)
  then show ?thesis by blast
qed

lemma draining_completes:
  assumes "draining M R i b j b' s"
    and "n = nat (2 * (R - i) - held b + (2 * (R - j) - held b'))"
  shows "\<exists>ts s'. exec (map TransferStep ts) s = Some s' \<and> completed s'"
  using assms
proof (induction n arbitrary: i b j b' s rule: less_induct)
  case (less n)
  show ?case
  proof (cases "completed s")
    case True
    then have "exec (map TransferStep []) s = Some s \<and> completed s" by simp
    then show ?thesis by blast
  next
    case False
    from draining_progress [OF less.prems(1) False]
    obtain t s1 where st: "step (TransferStep t) s = Some s1" by blast
    from draining_step [OF less.prems(1) st]
    obtain i1 b1 j1 b1' where d1: "draining M R i1 b1 j1 b1' s1"
      and lt: "2 * (R - i1) - held b1 + (2 * (R - j1) - held b1')
                < 2 * (R - i) - held b + (2 * (R - j) - held b')"
      by blast
    from d1 have "0 \<le> 2 * (R - i1) - held b1 + (2 * (R - j1) - held b1')"
      by (auto simp: draining_def held_def split: if_splits)
    with lt less.prems(2)
    have "nat (2 * (R - i1) - held b1 + (2 * (R - j1) - held b1')) < n" by linarith
    from less.IH [OF this d1 refl]
    obtain ts s' where "exec (map TransferStep ts) s1 = Some s'" "completed s'" by blast
    with st have "exec (map TransferStep (t # ts)) s = Some s' \<and> completed s'" by simp
    then show ?thesis by blast
  qed
qed

lemma filling_exec:
  "filling M R i b s \<Longrightarrow> exec (map TransferStep ts) s = Some s' \<Longrightarrow> \<exists>i' b'. filling M R i' b' s'"
proof (induction ts arbitrary: i b s)
  case Nil
  then show ?case by auto
next
  case (Cons t ts)
  from Cons.prems(2) obtain s1 where s1: "step (TransferStep t) s = Some s1"
    "exec (map TransferStep ts) s1 = Some s'"
    by (auto split: option.splits)
  from filling_step [OF Cons.prems(1) s1(1)] obtain i1 b1 where "filling M R i1 b1 s1" by blast
  from Cons.IH [OF this s1(2)] show ?case .
qed

lemma draining_exec:
  "draining M R i b j b' s \<Longrightarrow> exec (map TransferStep ts) s = Some s'
   \<Longrightarrow> \<exists>i1 b1 j1 b1'. draining M R i1 b1 j1 b1' s'"
proof (induction ts arbitrary: i b j b' s)
  case Nil
  then show ?case by auto
next
  case (Cons t ts)
  from Cons.prems(2) obtain s1 where s1: "step (TransferStep t) s = Some s1"
    "exec (map TransferStep ts) s1 = Some s'"
    by (auto split: option.splits)
  from draining_step [OF Cons.prems(1) s1(1)]
  obtain i1 b1 j1 b1' where "draining M R i1 b1 j1 b1' s1" by blast
  from Cons.IH [OF this s1(2)] show ?case .
qed

text \<open>
  Claim C8 (opening and closing a reservation): on a freshly constructed limiter,
  \<^verbatim>\<open>openReservation\<close> for a client, then \<^verbatim>\<open>closeReservation\<close> for the same
  client, with steps of the transfer goroutines in between and afterwards and nothing else:
  once both goroutines have completed, the shared queue holds the maximal capacity again,
  as at the start, and each of the two goroutines has moved exactly the capacity per
  reservation, one token per iteration. The goroutines can always run on to completion.
\<close>

theorem open_close_round_trip:
  assumes new: "NewElasticRateLimiter M R cm0 nc cc = Some s0"
    and opn: "openReservation s0 c = Inr (q, s1)"
    and run1: "exec (map TransferStep ts1) s1 = Some s2"
    and run2: "exec (map TransferStep ts2) (closeReservation s2 c) = Some s3"
  shows "shared_tokens s0 = nat M
       \<and> (completed s3 \<longrightarrow>
            shared_tokens s3 = nat M \<and> size (tasks s3) = 2
            \<and> (\<forall>t\<in>#tasks s3. iter t = R \<and> \<not> holding t))
       \<and> (\<exists>ts s4. exec (map TransferStep ts) s3 = Some s4 \<and> completed s4)"
proof -
  from new have M: "0 \<le> M" and s0: "s0 = \<lparr> MaxCapacity = M, CapacityPerReservation = R,
                  sharedCapacity = 0, capacityByClient = Map.empty,
                  noCapacityCounter = nc, cm = cm0, enableCM = False,
                  congestionControlCounter = cc,
                  chans = [\<lparr>qcap = nat M, qlen = nat M\<rparr>], tasks = {#}, guards = {#}, calls = {#} \<rparr>"
    by (auto simp: NewElasticRateLimiter_eq split: if_splits)
  note o = openReservation_Inr [OF opn]
  from o(4,5) s0 have s1: "guards s1 = {#}" "capacityByClient s1 = [c \<mapsto> 1]" "size (tasks s1) = 1"
    by simp_all
  note f1 = exec_transfers_frame [OF run1]
  let ?s2' = "closeReservation s2 c"
  from f1 s1 exec_constants [OF run1] o(5) s0
  have s2': "guards ?s2' = {#}" "capacityByClient ?s2' = Map.empty" "size (tasks ?s2') = 2"
    by (simp_all add: closeReservation_def)
  note f2 = exec_transfers_frame [OF run2]
  have run: "exec (Open c # map TransferStep ts1 @ Close c # map TransferStep ts2) s0 = Some s3"
    using opn run1 run2 by (simp add: exec_append)
  from new have "invariant s0" by (rule invariant_New)
  then have inv: "invariant s3" using run by (rule invariant_exec)
  have restored: "shared_tokens s3 = nat M \<and> size (tasks s3) = 2
      \<and> (\<forall>t\<in>#tasks s3. iter t = R \<and> \<not> holding t)" if cmpl: "completed s3"
  proof -
    from conservation_core [OF inv completed_quiesced [OF cmpl]] f2 s2' exec_constants [OF run] s0
    have "int (shared_tokens s3) = M" by (simp add: reservation_tokens_def)
    moreover have "\<forall>t\<in>#tasks s3. iter t = R \<and> \<not> holding t"
    proof
      fix t assume t: "t \<in># tasks s3"
      with inv have "iter t + carried t \<le> CapacityPerReservation s3"
        by (simp add: invariant_def Inv_def I_tasks_def)
      moreover from cmpl t have "\<not> iter t < CapacityPerReservation s3" "\<not> holding t"
        by (simp_all add: completed_def)
      moreover from exec_constants [OF run] s0 have "CapacityPerReservation s3 = R" by simp
      ultimately show "iter t = R \<and> \<not> holding t" by (simp add: carried_def)
    qed
    ultimately show ?thesis using f2 s2' by simp
  qed
  have "filling M R 0 False s1"
    using o(2,3) s0 M by (simp add: o(5) filling_def held_def opener_def)
  from filling_exec [OF this run1] obtain i b where fl: "filling M R i b s2" by blast
  from f1 s1 have "capacityByClient s2 c = Some 1" by simp
  moreover from exec_constants [OF run1] o(5) s0 have "sharedCapacity s2 = 0" by simp
  ultimately have "draining M R i b 0 False ?s2'"
    using fl by (simp add: filling_def draining_def closeReservation_def closer_def held_def)
  from draining_exec [OF this run2] obtain i1 b1 j1 b1' where "draining M R i1 b1 j1 b1' s3"
    by blast
  from draining_completes [OF this refl]
  have "\<exists>ts s4. exec (map TransferStep ts) s3 = Some s4 \<and> completed s4" .
  with restored s0 M show ?thesis by (simp add: shared_tokens_def)
qed

lemmas example_defs =
  NewElasticRateLimiter_eq example_run_def example_final_def opener_def closer_def
  limiter0_def limiter1_def limiter2_def limiter3_def exhausted_def
  call_begin_def openReservation_def closeReservation_def finish_call_def transfer_step_def
  blockingConsume_def blockingRelease_def recv_def send_def consume_def
  notify_consumed_def Release_def Inc_def

theorem token_conservation_witness:
  "NewElasticRateLimiter 4 2 (Some []) (Some 0) None = Some limiter0
   \<and> exec example_run limiter0 = Some example_final
   \<and> quiesced example_final
   \<and> shared_tokens example_final = 1 \<and> reservation_tokens example_final = 1
   \<and> size (guards example_final) = 2
   \<and> int (shared_tokens example_final) + int (reservation_tokens example_final)
       + int (size (guards example_final)) = 4"
proof -
  have a: "NewElasticRateLimiter 4 2 (Some []) (Some 0) None = Some limiter0"
    by (simp add: example_defs)
  have b: "exec example_run limiter0 = Some example_final"
    by (simp add: example_defs)
  have c: "quiesced example_final"
    by (simp add: quiesced_def example_defs)
  have d: "shared_tokens example_final = 1" "reservation_tokens example_final = 1"
    "size (guards example_final) = 2"
    by (simp_all add: shared_tokens_def reservation_tokens_def example_defs)
  from token_conservation [OF a b c] a b c d show ?thesis by simp
qed

theorem reservation_isolation_witness:
  "capacityByClient (exhausted\<lparr>chans := [\<lparr>qcap = 4, qlen = 0\<rparr>, \<lparr>qcap = 2, qlen = 1\<rparr>]\<rparr>) 1 = Some 1
   \<and> fst (ConsumeCapacity (exhausted\<lparr>chans := [\<lparr>qcap = 4, qlen = 0\<rparr>, \<lparr>qcap = 2, qlen = 1\<rparr>]\<rparr>) 1 7 True)
       = Returned (Inr \<lparr>cq = 1\<rparr>)
   \<and> chans (snd (ConsumeCapacity (exhausted\<lparr>chans := [\<lparr>qcap = 4, qlen = 0\<rparr>, \<lparr>qcap = 2, qlen = 1\<rparr>]\<rparr>) 1 7 True))
       = [\<lparr>qcap = 4, qlen = 0\<rparr>, \<lparr>qcap = 2, qlen = 0\<rparr>]"
  using reservation_isolation [of "exhausted\<lparr>chans := [\<lparr>qcap = 4, qlen = 0\<rparr>, \<lparr>qcap = 2, qlen = 1\<rparr>]\<rparr>" 1 1 7 True]
  by (simp add: example_defs)


theorem overprovisioning_bound_witness:
  "exec [Open 1, Open 2] limiter0
     = Some (limiter0\<lparr> capacityByClient := [1 \<mapsto> 1, 2 \<mapsto> 2],
           chans := [\<lparr>qcap = 4, qlen = 4\<rparr>, \<lparr>qcap = 2, qlen = 0\<rparr>, \<lparr>qcap = 2, qlen = 0\<rparr>],
           tasks := {#opener 1 0 False, opener 2 0 False#} \<rparr>)
   \<and> openReservation (limiter0\<lparr> capacityByClient := [1 \<mapsto> 1, 2 \<mapsto> 2],
           chans := [\<lparr>qcap = 4, qlen = 4\<rparr>, \<lparr>qcap = 2, qlen = 0\<rparr>, \<lparr>qcap = 2, qlen = 0\<rparr>],
           tasks := {#opener 1 0 False, opener 2 0 False#} \<rparr>) 3 = Inl (NotEnoughCapacity 0 2)"
proof -
  let ?s = "limiter0\<lparr> capacityByClient := [1 \<mapsto> 1, 2 \<mapsto> 2],
           chans := [\<lparr>qcap = 4, qlen = 4\<rparr>, \<lparr>qcap = 2, qlen = 0\<rparr>, \<lparr>qcap = 2, qlen = 0\<rparr>],
           tasks := {#opener 1 0 False, opener 2 0 False#} \<rparr>"
  have a: "NewElasticRateLimiter 4 2 (Some []) (Some 0) None = Some limiter0"
    by (simp add: example_defs)
  have b: "exec [Open 1, Open 2] limiter0 = Some ?s"
    by (simp add: example_defs numeral_2_eq_2)
  have c: "card (dom (capacityByClient ?s)) = 2" by simp
  from overprovisioning_bound [OF a b, of 3 0 False] c
  have "openReservation ?s 3 = Inl (NotEnoughCapacity 0 2)"
    by (auto simp: example_defs)
  with b show ?thesis by simp
qed

theorem open_close_round_trip_witness:
  "NewElasticRateLimiter 4 2 (Some []) (Some 0) None = Some limiter0
   \<and> openReservation limiter0 1 = Inr (1, limiter1)
   \<and> exec (map TransferStep [opener 1 0 False, opener 1 0 True]) limiter1 = Some limiter2
   \<and> exec (map TransferStep [closer 1 0 False, opener 1 1 False, closer 1 0 True,
                              opener 1 1 True, closer 1 1 False, closer 1 1 True])
        (closeReservation limiter2 1) = Some limiter3
   \<and> completed limiter3
   \<and> shared_tokens limiter3 = 4"
proof -
  have a: "NewElasticRateLimiter 4 2 (Some []) (Some 0) None = Some limiter0"
    by (simp add: example_defs)
  have b: "openReservation limiter0 1 = Inr (1, limiter1)"
    by (simp add: example_defs)
  have c: "exec (map TransferStep [opener 1 0 False, opener 1 0 True]) limiter1 = Some limiter2"
    by (simp add: example_defs)
  have d: "exec (map TransferStep [closer 1 0 False, opener 1 1 False, closer 1 0 True,
                              opener 1 1 True, closer 1 1 False, closer 1 1 True])
        (closeReservation limiter2 1) = Some limiter3"
    by (simp add: example_defs add_mset_commute)
  have e: "completed limiter3"
    by (simp add: completed_def example_defs)
  from open_close_round_trip [OF a b c d] a b c d e show ?thesis by simp
qed

lemma step_cm_changes:
  assumes "step e s2 = Some s3" and "cm s3 \<noteq> cm s2"
  shows "(\<exists>c' q' en t sd'. e = CallStep (AtReserved c' q' en) t sd'
            \<and> cm s3 = map_option (\<lambda>l. l @ [(c', t)]) (cm s2))
       \<or> (\<exists>c' t sd'. e = CallStep (AtShared c') t sd'
            \<and> cm s3 = map_option (\<lambda>l. l @ [(c', t)]) (cm s2))"
proof (cases e)
  case (CallStep k now sd)
  show ?thesis
  proof (cases k)
    case (AtOpen c)
    with CallStep assms show ?thesis
      by (auto simp: finish_call_def openReservation_def Let_def split: if_splits)
  next
    case (AtBlockingConsume c q)
    with CallStep assms show ?thesis
      by (auto simp: finish_call_def split: if_splits option.splits)
  next
    case (AtReserved c q en)
    with CallStep assms show ?thesis
      by (auto simp: finish_call_def consume_def notify_consumed_def split: if_splits option.splits)
  next
    case (AtGate c en)
    with CallStep assms show ?thesis
      by (auto simp: finish_call_def split: if_splits)
  next
    case (AtShared c)
    with CallStep assms show ?thesis
      by (auto simp: finish_call_def consume_def notify_consumed_def split: if_splits option.splits)
  qed
next
  case (ReleaseGuard cg)
  with assms show ?thesis by (auto simp: Release_def split: if_splits option.splits)
next
  case (Open c)
  with assms show ?thesis
    by (auto simp: openReservation_def Let_def split: if_splits sum.splits)
next
  case (Close c)
  with assms show ?thesis by (auto simp: closeReservation_def split: option.splits if_splits)
next
  case (TransferStep t)
  with assms show ?thesis by (auto simp: transfer_step_def split: if_splits option.splits)
qed (use assms in \<open>auto simp: EnableCongestionControl_def DisableCongestionControl_def\<close>)

text \<open>
  Claim C10 (the first admission is not notified): for a client without a reservation,
  \<^verbatim>\<open>ConsumeCapacity\<close> returns an error, or opens the reservation and waits at the
  blocking receive, with the calls received by the congestion manager unchanged; when the
  call goes on from there it takes one token from the new reservation and returns its
  guard, again with those calls unchanged. A step of an execution adds a \<^verbatim>\<open>Consumed\<close>
  call only when it is the successful take of step 1 (the reserved queue) or of step 3
  (the shared queue).
\<close>

theorem first_admission_not_notified:
  assumes "capacityByClient s c = None"
  shows "((\<exists>err. ConsumeCapacity s c now sd = (Returned (Inl err), s))
          \<or> (\<exists>q s1. openReservation s c = Inr (q, s1)
                \<and> ConsumeCapacity s c now sd = (Pending (AtBlockingConsume c q), s1)
                \<and> cm s1 = cm s))
       \<and> (\<forall>q now' sd' s2 x. call_step (AtBlockingConsume c q) now' sd' s2 = Some x \<longrightarrow>
             (\<exists>h. recv q (chans s2) = Some h
                \<and> x = (Returned (Inr \<lparr>cq = q\<rparr>), s2\<lparr>chans := h\<rparr>) \<and> cm (snd x) = cm s2))
       \<and> (\<forall>e s2 s3. step e s2 = Some s3 \<and> cm s3 \<noteq> cm s2 \<longrightarrow>
             (\<exists>c' q' en t sd'. e = CallStep (AtReserved c' q' en) t sd'
                \<and> cm s3 = map_option (\<lambda>l. l @ [(c', t)]) (cm s2))
           \<or> (\<exists>c' t sd'. e = CallStep (AtShared c') t sd'
                \<and> cm s3 = map_option (\<lambda>l. l @ [(c', t)]) (cm s2)))"
proof (intro conjI)
  show "(\<exists>err. ConsumeCapacity s c now sd = (Returned (Inl err), s))
      \<or> (\<exists>q s1. openReservation s c = Inr (q, s1)
            \<and> ConsumeCapacity s c now sd = (Pending (AtBlockingConsume c q), s1)
            \<and> cm s1 = cm s)"
  proof (cases "openReservation s c")
    case (Inl err)
    with assms show ?thesis by (simp add: ConsumeCapacity_def)
  next
    case (Inr y)
    obtain q s1 where y: "y = (q, s1)" by (cases y)
    note o = openReservation_Inr [OF Inr [unfolded y]]
    have "blockingConsume q (chans s1) = None"
      by (simp add: o(4,5) blockingConsume_def recv_def)
    with assms Inr y o(5) show ?thesis by (simp add: ConsumeCapacity_def)
  qed
next
  show "\<forall>q now' sd' s2 x. call_step (AtBlockingConsume c q) now' sd' s2 = Some x \<longrightarrow>
          (\<exists>h. recv q (chans s2) = Some h
             \<and> x = (Returned (Inr \<lparr>cq = q\<rparr>), s2\<lparr>chans := h\<rparr>) \<and> cm (snd x) = cm s2)"
    by (auto simp: blockingConsume_def split: option.splits)
next
  show "\<forall>e s2 s3. step e s2 = Some s3 \<and> cm s3 \<noteq> cm s2 \<longrightarrow>
          (\<exists>c' q' en t sd'. e = CallStep (AtReserved c' q' en) t sd'
             \<and> cm s3 = map_option (\<lambda>l. l @ [(c', t)]) (cm s2))
        \<or> (\<exists>c' t sd'. e = CallStep (AtShared c') t sd'
             \<and> cm s3 = map_option (\<lambda>l. l @ [(c', t)]) (cm s2))"
    using step_cm_changes by blast
qed

theorem first_admission_not_notified_witness:
  "capacityByClient limiter0 1 = None
   \<and> ConsumeCapacity limiter0 1 0 False = (Pending (AtBlockingConsume 1 1), limiter1)
   \<and> cm limiter1 = cm limiter0
   \<and> call_step (AtBlockingConsume 1 1) 0 False limiter2
       = Some (Returned (Inr \<lparr>cq = 1\<rparr>),
               limiter2\<lparr>chans := [\<lparr>qcap = 4, qlen = 3\<rparr>, \<lparr>qcap = 2, qlen = 0\<rparr>]\<rparr>)
   \<and> cm (limiter2\<lparr>chans := [\<lparr>qcap = 4, qlen = 3\<rparr>, \<lparr>qcap = 2, qlen = 0\<rparr>]\<rparr>) = Some []"
proof -
  have a: "capacityByClient limiter0 1 = None" by (simp add: example_defs)
  have b: "openReservation limiter0 1 = Inr (1, limiter1)" by (simp add: example_defs)
  have e: "ConsumeCapacity limiter0 1 0 False = (Pending (AtBlockingConsume 1 1), limiter1)"
    by (simp add: ConsumeCapacity_def example_defs)
  from first_admission_not_notified [OF a, of 0 False]
  have "(\<exists>err. ConsumeCapacity limiter0 1 0 False = (Returned (Inl err), limiter0))
          \<or> (\<exists>q s1. openReservation limiter0 1 = Inr (q, s1)
                \<and> ConsumeCapacity limiter0 1 0 False = (Pending (AtBlockingConsume 1 q), s1)
                \<and> cm s1 = cm limiter0)"
    by blast
  with b e have c: "ConsumeCapacity limiter0 1 0 False = (Pending (AtBlockingConsume 1 1), limiter1)
           \<and> cm limiter1 = cm limiter0"
    by auto
  have d: "call_step (AtBlockingConsume 1 1) 0 False limiter2
       = Some (Returned (Inr \<lparr>cq = 1\<rparr>),
               limiter2\<lparr>chans := [\<lparr>qcap = 4, qlen = 3\<rparr>, \<lparr>qcap = 2, qlen = 0\<rparr>]\<rparr>)"
    by (simp add: example_defs)
  from a c d show ?thesis by (simp add: example_defs)
qed

end
